theory Spec2Isabelle
  imports Main "HOL-Library.Word" "HOL-Library.Signed_Division"
begin

section \<open>The ELRU replacement policy of freelist\_elru.c\<close>

text \<open>
  A shallow embedding of \<^verbatim>\<open>src/elru/freelist_elru.c\<close>. The frame nodes of
  \<^verbatim>\<open>elruStack\<close> and the buffer descriptors live in arrays indexed by the buffer
  id; a pointer to a node is modelled by the index of the node, \<^verbatim>\<open>NULL\<close> by
  \<open>None\<close>. The arrays are stores from indices to records, so that two pointers to
  the same node alias as they do in C. Spinlocks and buffer header locks are left out: the
  model is the sequential behaviour of one backend.
\<close>

subsection \<open>Data\<close>

type_synonym timestamp = "64 word"  \<comment> \<open>\<^verbatim>\<open>long long\<close> nanoseconds\<close>

definition TIMESTAMP_NIL :: timestamp where
  "TIMESTAMP_NIL = - 1"

record BufferNode =
  node_id :: int
  prev :: "int option"
  "next" :: "int option"
  last_accessed :: timestamp
  second_last_accessed :: timestamp

text \<open>
  A buffer descriptor belongs to the descriptor table of the buffer manager
  (\<^verbatim>\<open>buf_internals.h\<close>, not part of this file). The code reads the reference count
  and the usage count out of the descriptor's state word and reads and writes its
  \<^verbatim>\<open>freeNext\<close> link; \<^verbatim>\<open>GetBufferDescriptor(i)\<close> is the descriptor with
  \<^verbatim>\<open>buf_id = i\<close>, so a descriptor pointer is modelled by the buffer id.
\<close>

record BufferDesc =
  refcount :: nat  \<comment> \<open>\<^verbatim>\<open>BUF_STATE_GET_REFCOUNT\<close> of the state word\<close>
  usage_count :: nat  \<comment> \<open>\<^verbatim>\<open>BUF_STATE_GET_USAGECOUNT\<close> of the state word\<close>
  freeNext :: int

definition FREENEXT_NOT_IN_LIST :: int where
  \<comment> \<open>Modelled from the spec: the sentinel \<^verbatim>\<open>NOT_IN_LIST\<close> of the free list is a macro of
     \<^verbatim>\<open>buf_internals.h\<close>, which is not under src/; PostgreSQL's value is taken.\<close>
  "FREENEXT_NOT_IN_LIST = - 2"

text \<open>
  The shared state: the fields of \<^verbatim>\<open>BufferStrategyControl\<close> (without its spinlocks),
  the array \<^verbatim>\<open>elruStack\<close>, the descriptor table, and the latches set by
  \<^verbatim>\<open>SetLatch\<close>, in order.
\<close>

record strategy_state =
  nextVictimBuffer :: "32 word"
  firstFreeBuffer :: int
  lastFreeBuffer :: int
  stackTop :: "int option"
  stackBottom :: "int option"
  completePasses :: "32 word"
  numBufferAllocs :: "32 word"
  bgwprocno :: int
  elruStack :: "int \<Rightarrow> BufferNode"
  BufferDescriptors :: "int \<Rightarrow> BufferDesc"
  latches_set :: "int list"

text \<open>
  \<^verbatim>\<open>elog(ERROR, ...)\<close> leaves the function by a jump; the shared memory stays as it
  was at that moment, so the two errors the code raises carry the state. Dereferencing
  \<^verbatim>\<open>NULL\<close>, reaching the end of \<^verbatim>\<open>StrategyGetBuffer\<close> without a
  \<^verbatim>\<open>return\<close> and dividing by zero are undefined behaviour and end the run. A loop
  that does not terminate is the value \<open>None\<close> of the option type around every result.
\<close>

datatype error =
    Invalid_buffer_index strategy_state
  | No_unpinned_buffer strategy_state
  | Null_dereference
  | No_return_value
  | Division_by_zero

subsection \<open>Assignments to the fields of a node and of a descriptor\<close>

definition set_prev :: "strategy_state \<Rightarrow> int \<Rightarrow> int option \<Rightarrow> strategy_state" where
  "set_prev s p v = s\<lparr>elruStack := (elruStack s)(p := (elruStack s p)\<lparr>prev := v\<rparr>)\<rparr>"

definition set_next :: "strategy_state \<Rightarrow> int \<Rightarrow> int option \<Rightarrow> strategy_state" where
  "set_next s p v = s\<lparr>elruStack := (elruStack s)(p := (elruStack s p)\<lparr>next := v\<rparr>)\<rparr>"

definition set_last_accessed :: "strategy_state \<Rightarrow> int \<Rightarrow> timestamp \<Rightarrow> strategy_state" where
  "set_last_accessed s p v =
     s\<lparr>elruStack := (elruStack s)(p := (elruStack s p)\<lparr>last_accessed := v\<rparr>)\<rparr>"

definition set_second_last_accessed :: "strategy_state \<Rightarrow> int \<Rightarrow> timestamp \<Rightarrow> strategy_state" where
  "set_second_last_accessed s p v =
     s\<lparr>elruStack := (elruStack s)(p := (elruStack s p)\<lparr>second_last_accessed := v\<rparr>)\<rparr>"

definition set_freeNext :: "strategy_state \<Rightarrow> int \<Rightarrow> int \<Rightarrow> strategy_state" where
  "set_freeNext s b v =
     s\<lparr>BufferDescriptors := (BufferDescriptors s)(b := (BufferDescriptors s b)\<lparr>freeNext := v\<rparr>)\<rparr>"

subsection \<open>The comparator\<close>

definition isRemovedNode :: "BufferNode \<Rightarrow> bool" where
  "isRemovedNode node \<longleftrightarrow>
     last_accessed node = TIMESTAMP_NIL \<and> second_last_accessed node = TIMESTAMP_NIL"

text \<open>
  \<^verbatim>\<open>compareELRU\<close> returns an \<^verbatim>\<open>int\<close>: the \<^verbatim>\<open>long long\<close> difference of two
  timestamps is converted to 32 bits by the \<^verbatim>\<open>return\<close>. The conversion keeps the low
  32 bits (\<open>ucast\<close>), and \<open>sint\<close> reads them as the two's complement value the caller
  compares with zero.
\<close>

definition long_long_to_int :: "64 word \<Rightarrow> int" where
  "long_long_to_int d = sint (ucast d :: 32 word)"

definition compareELRU :: "BufferNode \<Rightarrow> BufferNode \<Rightarrow> int" where
  "compareELRU a b =
     (if isRemovedNode a then 1
      else if isRemovedNode b then - 1
      else if second_last_accessed a = TIMESTAMP_NIL \<and> second_last_accessed b = TIMESTAMP_NIL
        then long_long_to_int (last_accessed a - last_accessed b)
      else if second_last_accessed a = TIMESTAMP_NIL then - 1
      else if second_last_accessed b = TIMESTAMP_NIL then 1
      else long_long_to_int (second_last_accessed a - second_last_accessed b))"

subsection \<open>Insertion into the stack: processStackBottomToTop\<close>

text \<open>The four blocks of assignments that link \<open>node\<close> next to \<open>current\<close>.\<close>

definition link_as_top :: "strategy_state \<Rightarrow> int \<Rightarrow> int \<Rightarrow> strategy_state" where
  "link_as_top s node current =
     (let s1 = set_prev s current (Some node);
          s2 = set_next s1 node (Some current);
          s3 = set_prev s2 node None
      in s3\<lparr>stackTop := Some node\<rparr>)"

definition link_below_sole :: "strategy_state \<Rightarrow> int \<Rightarrow> int \<Rightarrow> strategy_state" where
  "link_below_sole s node current =
     (let s1 = set_prev s node (Some current);
          s2 = set_next s1 current (Some node)
      in s2\<lparr>stackBottom := Some node\<rparr>)"

definition link_below :: "strategy_state \<Rightarrow> int \<Rightarrow> int \<Rightarrow> int \<Rightarrow> strategy_state" where
  "link_below s node current current_next =
     (let s1 = set_prev s current_next (Some node);
          s2 = set_next s1 node (next (elruStack s1 current));
          s3 = set_next s2 current (Some node)
      in set_prev s3 node (Some current))"

definition link_as_bottom :: "strategy_state \<Rightarrow> int \<Rightarrow> int \<Rightarrow> strategy_state" where
  "link_as_bottom s node current =
     (let s1 = s\<lparr>stackBottom := Some node\<rparr>;
          s2 = set_prev s1 node (Some current);
          s3 = set_next s2 node None
      in set_next s3 current (Some node))"

text \<open>
  The \<^verbatim>\<open>while (current != NULL)\<close> loop: \<open>current\<close> walks from the bottom along the
  \<^verbatim>\<open>prev\<close> links. The state does not change before the iteration that returns.
\<close>

partial_function (option) processStack_loop ::
  "strategy_state \<Rightarrow> int \<Rightarrow> int option \<Rightarrow> (error + strategy_state) option" where
  "processStack_loop s node current =
     (case current of
        None \<Rightarrow> Some (Inr s)
      | Some c \<Rightarrow>
          (case stackTop s of
             None \<Rightarrow> Some (Inl Null_dereference)
           | Some t \<Rightarrow>
               if node_id (elruStack s c) = node_id (elruStack s t) then
                 (if compareELRU (elruStack s node) (elruStack s c) > 0
                  then Some (Inr (link_as_top s node c))
                  else (case next (elruStack s c) of
                          None \<Rightarrow> Some (Inr (link_below_sole s node c))
                        | Some cn \<Rightarrow> Some (Inr (link_below s node c cn))))
               else if compareELRU (elruStack s node) (elruStack s c) \<le> 0 then
                 (case next (elruStack s c) of
                    None \<Rightarrow> Some (Inr (link_as_bottom s node c))
                  | Some cn \<Rightarrow> Some (Inr (link_below s node c cn)))
               else processStack_loop s node (prev (elruStack s c))))"

definition processStackBottomToTop ::
  "strategy_state \<Rightarrow> int \<Rightarrow> (error + strategy_state) option" where
  "processStackBottomToTop s node =
     (case stackBottom s of
        None \<Rightarrow>
          (let s1 = s\<lparr>stackBottom := Some node, stackTop := Some node\<rparr>;
               s2 = set_next s1 node None
           in Some (Inr (set_prev s2 node None)))
      | Some b \<Rightarrow> processStack_loop s node (Some b))"

subsection \<open>StrategyAccessBuffer\<close>

text \<open>
  The branch under \<^verbatim>\<open>if (false)\<close> (``case 4: remove buffer from stack''). It is
  written out as the source has it; \<open>StrategyAccessBuffer\<close> never runs it.
\<close>

definition clear_node :: "strategy_state \<Rightarrow> int \<Rightarrow> strategy_state" where
  "clear_node s cur =
     (let s1 = set_prev s cur None;
          s2 = set_next s1 cur None;
          s3 = set_last_accessed s2 cur TIMESTAMP_NIL
      in set_second_last_accessed s3 cur TIMESTAMP_NIL)"

definition remove_from_stack ::
  "strategy_state \<Rightarrow> int \<Rightarrow> int \<Rightarrow> (error + strategy_state) option" where
  "remove_from_stack s cur buf_id =
     (if prev (elruStack s cur) = None \<and> next (elruStack s cur) = None then
        (case stackTop s of
           None \<Rightarrow> Some (Inr s)
         | Some t \<Rightarrow>
             if node_id (elruStack s t) \<noteq> buf_id then Some (Inr s)
             else (case stackBottom s of
                     None \<Rightarrow> Some (Inl Null_dereference)
                   | Some b \<Rightarrow>
                       if node_id (elruStack s b) = buf_id
                       then Some (Inr (clear_node (s\<lparr>stackTop := None, stackBottom := None\<rparr>) cur))
                       else Some (Inr (clear_node s cur))))
      else
        (case stackTop s of
           None \<Rightarrow> Some (Inl Null_dereference)
         | Some t \<Rightarrow>
             if node_id (elruStack s t) = buf_id then
               (let s1 = s\<lparr>stackTop := next (elruStack s cur)\<rparr> in
                case next (elruStack s1 cur) of
                  None \<Rightarrow> Some (Inl Null_dereference)
                | Some n \<Rightarrow> Some (Inr (clear_node (set_prev s1 n None) cur)))
             else
               (case stackBottom s of
                  None \<Rightarrow> Some (Inl Null_dereference)
                | Some b \<Rightarrow>
                    if node_id (elruStack s b) = buf_id then
                      (let s1 = s\<lparr>stackBottom := prev (elruStack s cur)\<rparr> in
                       case prev (elruStack s1 cur) of
                         None \<Rightarrow> Some (Inl Null_dereference)
                       | Some p \<Rightarrow> Some (Inr (clear_node (set_next s1 p None) cur)))
                    else
                      (case next (elruStack s cur) of
                         None \<Rightarrow> Some (Inl Null_dereference)
                       | Some n \<Rightarrow>
                           (let s1 = set_prev s n (prev (elruStack s cur)) in
                            case prev (elruStack s1 cur) of
                              None \<Rightarrow> Some (Inl Null_dereference)
                            | Some p \<Rightarrow>
                                Some (Inr (clear_node
                                  (set_next s1 p (next (elruStack s1 cur))) cur)))))))"

text \<open>The loop \<^verbatim>\<open>while (temp != NULL) temp = temp->prev;\<close> of the middle case.\<close>

partial_function (option) walk_prev :: "strategy_state \<Rightarrow> int option \<Rightarrow> unit option" where
  "walk_prev s temp =
     (case temp of
        None \<Rightarrow> Some ()
      | Some t \<Rightarrow> walk_prev s (prev (elruStack s t)))"

text \<open>The two guarded assignments that follow that loop.\<close>

definition unlink_middle :: "strategy_state \<Rightarrow> int \<Rightarrow> strategy_state" where
  "unlink_middle s cur =
     (let s1 = (case next (elruStack s cur) of
                  None \<Rightarrow> s
                | Some n \<Rightarrow> set_prev s n (prev (elruStack s cur)))
      in case prev (elruStack s1 cur) of
           None \<Rightarrow> s1
         | Some p \<Rightarrow> set_next s1 p (next (elruStack s1 cur)))"

text \<open>
  \<open>now\<close> is the value \<^verbatim>\<open>getCurrentTimeNanoseconds()\<close> returns at the call; the
  monotonic clock belongs to the environment. \<open>NBuffers\<close> is the size of the pool, a
  global of the buffer manager. The local \<^verbatim>\<open>curr\<close> is written \<open>cur\<close>. The branch under
  \<^verbatim>\<open>if (false)\<close> is kept as the source has it.
\<close>

definition StrategyAccessBuffer ::
  "int \<Rightarrow> strategy_state \<Rightarrow> int \<Rightarrow> bool \<Rightarrow> timestamp \<Rightarrow> (error + strategy_state) option" where
  "StrategyAccessBuffer NBuffers s buf_id delete now =
     (if buf_id < 0 \<or> buf_id \<ge> NBuffers then Some (Inl (Invalid_buffer_index s))
      else
        let cur = buf_id in
        if False then remove_from_stack s cur buf_id
        else
          let prev_last_accessed = last_accessed (elruStack s cur);
              s1 = set_last_accessed s cur now;
              s2 = set_second_last_accessed s1 cur prev_last_accessed
          in
          if prev (elruStack s2 cur) = None \<and> next (elruStack s2 cur) = None
             \<and> (case stackTop s2 of
                    None \<Rightarrow> True
                  | Some t \<Rightarrow> node_id (elruStack s2 t) \<noteq> buf_id)
          then processStackBottomToTop s2 cur
          else
            (case stackBottom s2 of
               None \<Rightarrow> Some (Inl Null_dereference)
             | Some b \<Rightarrow>
                 if node_id (elruStack s2 b) = buf_id then
                   (let s3 = s2\<lparr>stackBottom := prev (elruStack s2 cur)\<rparr> in
                    case prev (elruStack s3 cur) of
                      None \<Rightarrow> Some (Inl Null_dereference)
                    | Some p \<Rightarrow> processStackBottomToTop (set_next s3 p None) cur)
                 else
                   (case stackTop s2 of
                      None \<Rightarrow> Some (Inl Null_dereference)
                    | Some t \<Rightarrow>
                        if node_id (elruStack s2 t) = buf_id then
                          (let s3 = s2\<lparr>stackTop := next (elruStack s2 cur)\<rparr> in
                           case stackTop s3 of
                             None \<Rightarrow> Some (Inl Null_dereference)
                           | Some t' \<Rightarrow> processStackBottomToTop (set_prev s3 t' None) cur)
                        else
                          (case walk_prev s2 (Some cur) of
                             None \<Rightarrow> None
                           | Some u \<Rightarrow> processStackBottomToTop (unlink_middle s2 cur) cur))))"

subsection \<open>The ring of a bulk access strategy\<close>

datatype BufferAccessStrategyType = BAS_NORMAL | BAS_BULKREAD | BAS_BULKWRITE | BAS_VACUUM

definition InvalidBuffer :: int where
  "InvalidBuffer = 0"

record BufferAccessStrategyData =
  btype :: BufferAccessStrategyType
  nbuffers :: int
  current :: int
  buffers :: "int \<Rightarrow> int"  \<comment> \<open>the flexible array, by slot index\<close>

text \<open>
  \<^verbatim>\<open>GetAccessStrategyWithSize\<close> allocates the ring with \<^verbatim>\<open>palloc0\<close>: every field and
  every slot is zero but \<^verbatim>\<open>btype\<close> and \<^verbatim>\<open>nbuffers\<close>. \<open>BLCKSZ\<close> is the page size, a
  constant of the build (\<^verbatim>\<open>pg_config.h\<close>, not part of this file), taken as a parameter.
  C's \<^verbatim>\<open>/\<close> on \<^verbatim>\<open>int\<close> truncates towards zero, which is \<open>sdiv\<close>, and a divisor of
  zero is undefined behaviour. The result \<open>None\<close> is \<^verbatim>\<open>NULL\<close>. The two
  \<^verbatim>\<open>Assert\<close>s are compiled to nothing in a production build, which is the one modelled.
\<close>

definition GetAccessStrategyWithSize ::
  "int \<Rightarrow> int \<Rightarrow> BufferAccessStrategyType \<Rightarrow> int
     \<Rightarrow> error + BufferAccessStrategyData option" where
  "GetAccessStrategyWithSize NBuffers BLCKSZ bt ring_size_kb =
     (if BLCKSZ sdiv 1024 = 0 then Inl Division_by_zero
      else
        let ring_buffers = ring_size_kb sdiv (BLCKSZ sdiv 1024) in
        if ring_buffers = 0 then Inr None
        else
          let ring_buffers = min (NBuffers sdiv 8) ring_buffers in
          Inr (Some \<lparr>btype = bt, nbuffers = ring_buffers, current = 0, buffers = (\<lambda>i. 0)\<rparr>))"

text \<open>
  The \<^verbatim>\<open>default\<close> branch of the \<^verbatim>\<open>switch\<close> (``unrecognized buffer access
  strategy'') has no value of the enumeration to run on.
\<close>

definition GetAccessStrategy ::
  "int \<Rightarrow> int \<Rightarrow> BufferAccessStrategyType \<Rightarrow> error + BufferAccessStrategyData option" where
  "GetAccessStrategy NBuffers BLCKSZ bt =
     (case bt of
        BAS_NORMAL \<Rightarrow> Inr None
      | BAS_BULKREAD \<Rightarrow> GetAccessStrategyWithSize NBuffers BLCKSZ bt 256
      | BAS_BULKWRITE \<Rightarrow> GetAccessStrategyWithSize NBuffers BLCKSZ bt (16 * 1024)
      | BAS_VACUUM \<Rightarrow> GetAccessStrategyWithSize NBuffers BLCKSZ bt 256)"

definition GetAccessStrategyBufferCount :: "BufferAccessStrategyData option \<Rightarrow> int" where
  "GetAccessStrategyBufferCount strategy =
     (case strategy of None \<Rightarrow> 0 | Some st \<Rightarrow> nbuffers st)"

text \<open>
  \<^verbatim>\<open>GetBufferFromRing\<close> advances \<^verbatim>\<open>current\<close> in place and returns the descriptor of the
  slot's buffer or \<^verbatim>\<open>NULL\<close>; the model returns the buffer id and the ring.
\<close>

definition GetBufferFromRing ::
  "BufferAccessStrategyData \<Rightarrow> strategy_state \<Rightarrow> int option \<times> BufferAccessStrategyData" where
  "GetBufferFromRing strategy s =
     (let st1 = strategy\<lparr>current := current strategy + 1\<rparr>;
          st2 = (if current st1 \<ge> nbuffers st1 then st1\<lparr>current := 0\<rparr> else st1);
          bufnum = buffers st2 (current st2)
      in if bufnum = InvalidBuffer then (None, st2)
         else
           let buf = bufnum - 1 in
           if refcount (BufferDescriptors s buf) = 0 \<and> usage_count (BufferDescriptors s buf) \<le> 1
           then (Some buf, st2)
           else (None, st2))"

definition AddBufferToRing :: "BufferAccessStrategyData \<Rightarrow> int \<Rightarrow> BufferAccessStrategyData" where
  \<comment> \<open>\<^verbatim>\<open>BufferDescriptorGetBuffer(buf)\<close> is \<^verbatim>\<open>buf_id + 1\<close>\<close>
  "AddBufferToRing strategy buf =
     strategy\<lparr>buffers := (buffers strategy)(current strategy := buf + 1)\<rparr>"

definition StrategyRejectBuffer ::
  "BufferAccessStrategyData \<Rightarrow> int \<Rightarrow> bool \<Rightarrow> bool \<times> BufferAccessStrategyData" where
  "StrategyRejectBuffer strategy buf from_ring =
     (if btype strategy \<noteq> BAS_BULKREAD then (False, strategy)
      else if \<not> from_ring \<or> buffers strategy (current strategy) \<noteq> buf + 1 then (False, strategy)
      else (True, strategy\<lparr>buffers := (buffers strategy)(current strategy := InvalidBuffer)\<rparr>))"

subsection \<open>StrategyGetBuffer\<close>

text \<open>
  The loop over the free list. It returns the popped buffer, or nothing when the list
  has run empty (the \<^verbatim>\<open>break\<close>).
\<close>

partial_function (option) freelist_loop ::
  "int \<Rightarrow> strategy_state \<Rightarrow> timestamp \<Rightarrow> (error + int option \<times> strategy_state) option" where
  "freelist_loop NBuffers s now =
     (if firstFreeBuffer s < 0 then Some (Inr (None, s))
      else
        let buf = firstFreeBuffer s;
            s1 = s\<lparr>firstFreeBuffer := freeNext (BufferDescriptors s buf)\<rparr>;
            s2 = set_freeNext s1 buf FREENEXT_NOT_IN_LIST
        in
        if refcount (BufferDescriptors s2 buf) = 0 \<and> usage_count (BufferDescriptors s2 buf) = 0
        then
          (case StrategyAccessBuffer NBuffers s2 buf False now of
             None \<Rightarrow> None
           | Some (Inl e) \<Rightarrow> Some (Inl e)
           | Some (Inr s3) \<Rightarrow> Some (Inr (Some buf, s3)))
        else freelist_loop NBuffers s2 now)"

text \<open>
  The walk over the stack from the bottom. It returns the victim, raises
  ``No unpinned buffer'' at a pinned top, or leaves the loop at \<^verbatim>\<open>NULL\<close> with nothing.
\<close>

partial_function (option) lru_loop ::
  "int \<Rightarrow> strategy_state \<Rightarrow> int option \<Rightarrow> timestamp
     \<Rightarrow> (error + (int \<times> strategy_state) option) option" where
  "lru_loop NBuffers s victim now =
     (case victim of
        None \<Rightarrow> Some (Inr None)
      | Some v \<Rightarrow>
          let buf = node_id (elruStack s v) in
          if refcount (BufferDescriptors s buf) = 0 then
            (let s1 = set_last_accessed s v TIMESTAMP_NIL;
                 s2 = set_second_last_accessed s1 v TIMESTAMP_NIL
             in case StrategyAccessBuffer NBuffers s2 buf False now of
                  None \<Rightarrow> None
                | Some (Inl e) \<Rightarrow> Some (Inl e)
                | Some (Inr s3) \<Rightarrow> Some (Inr (Some (buf, s3))))
          else
            (case stackTop s of
               None \<Rightarrow> Some (Inl Null_dereference)
             | Some t \<Rightarrow>
                 if node_id (elruStack s t) = buf then Some (Inl (No_unpinned_buffer s))
                 else lru_loop NBuffers s (prev (elruStack s v)) now))"

text \<open>
  The result of \<^verbatim>\<open>StrategyGetBuffer\<close>: the buffer, \<^verbatim>\<open>*from_ring\<close>, the strategy object
  (its \<^verbatim>\<open>current\<close> may have moved) and the state. \<^verbatim>\<open>*buf_state\<close> is the state word of
  the returned descriptor, which the function does not change.
\<close>

type_synonym get_buffer_result =
  "int \<times> bool \<times> BufferAccessStrategyData option \<times> strategy_state"

definition wake_bgwriter :: "strategy_state \<Rightarrow> strategy_state" where
  "wake_bgwriter s =
     (let bgw = bgwprocno s in
      if bgw \<noteq> - 1 then s\<lparr>bgwprocno := - 1, latches_set := latches_set s @ [bgw]\<rparr> else s)"

text \<open>The part of \<^verbatim>\<open>StrategyGetBuffer\<close> after the ring has been asked.\<close>

definition StrategyGetBuffer_shared ::
  "int \<Rightarrow> strategy_state \<Rightarrow> BufferAccessStrategyData option \<Rightarrow> timestamp
     \<Rightarrow> (error + get_buffer_result) option" where
  "StrategyGetBuffer_shared NBuffers s strategy now =
     (let s1 = wake_bgwriter s;
          s2 = s1\<lparr>numBufferAllocs := numBufferAllocs s1 + 1\<rparr>
      in case (if firstFreeBuffer s2 \<ge> 0 then freelist_loop NBuffers s2 now
               else Some (Inr (None, s2))) of
           None \<Rightarrow> None
         | Some (Inl e) \<Rightarrow> Some (Inl e)
         | Some (Inr (Some buf, s3)) \<Rightarrow> Some (Inr (buf, False, strategy, s3))
         | Some (Inr (None, s3)) \<Rightarrow>
             (case lru_loop NBuffers s3 (stackBottom s3) now of
                None \<Rightarrow> None
              | Some (Inl e) \<Rightarrow> Some (Inl e)
              | Some (Inr (Some (buf, s4))) \<Rightarrow> Some (Inr (buf, False, strategy, s4))
              | Some (Inr None) \<Rightarrow> Some (Inl No_return_value)))"

definition StrategyGetBuffer ::
  "int \<Rightarrow> strategy_state \<Rightarrow> BufferAccessStrategyData option \<Rightarrow> timestamp
     \<Rightarrow> (error + get_buffer_result) option" where
  "StrategyGetBuffer NBuffers s strategy now =
     (case strategy of
        None \<Rightarrow> StrategyGetBuffer_shared NBuffers s None now
      | Some st \<Rightarrow>
          (case GetBufferFromRing st s of
             (Some buf, st') \<Rightarrow>
               (case StrategyAccessBuffer NBuffers s buf False now of
                  None \<Rightarrow> None
                | Some (Inl e) \<Rightarrow> Some (Inl e)
                | Some (Inr s') \<Rightarrow> Some (Inr (buf, True, Some st', s')))
           | (None, st') \<Rightarrow> StrategyGetBuffer_shared NBuffers s (Some st') now))"

subsection \<open>StrategyFreeBuffer, StrategySyncStart and the rest\<close>

definition StrategyFreeBuffer ::
  "int \<Rightarrow> strategy_state \<Rightarrow> int \<Rightarrow> timestamp \<Rightarrow> (error + strategy_state) option" where
  "StrategyFreeBuffer NBuffers s buf now =
     (if freeNext (BufferDescriptors s buf) = FREENEXT_NOT_IN_LIST then
        (let s1 = set_freeNext s buf (firstFreeBuffer s);
             s2 = (if freeNext (BufferDescriptors s1 buf) < 0
                   then s1\<lparr>lastFreeBuffer := buf\<rparr> else s1);
             s3 = s2\<lparr>firstFreeBuffer := buf\<rparr>
         in StrategyAccessBuffer NBuffers s3 buf True now)
      else Some (Inr s))"

text \<open>
  \<^verbatim>\<open>StrategySyncStart\<close>: the two flags say whether the out-pointers are non-\<^verbatim>\<open>NULL\<close>.
  \<^verbatim>\<open>nextVictimBuffer % NBuffers\<close> and \<^verbatim>\<open>/\<close> are unsigned 32-bit operations, with
  \<^verbatim>\<open>NBuffers\<close> converted to \<^verbatim>\<open>uint32\<close>.
\<close>

definition StrategySyncStart ::
  "int \<Rightarrow> strategy_state \<Rightarrow> bool \<Rightarrow> bool
     \<Rightarrow> int \<times> 32 word option \<times> 32 word option \<times> strategy_state" where
  "StrategySyncStart NBuffers s want_passes want_allocs =
     (let nvb = nextVictimBuffer s;
          result = uint (nvb mod word_of_int NBuffers);
          passes = (if want_passes
                    then Some (completePasses s + nvb div word_of_int NBuffers) else None)
      in if want_allocs
         then (result, passes, Some (numBufferAllocs s), s\<lparr>numBufferAllocs := 0\<rparr>)
         else (result, passes, None, s))"

definition StrategyNotifyBgWriter :: "strategy_state \<Rightarrow> int \<Rightarrow> strategy_state" where
  "StrategyNotifyBgWriter s bgw = s\<lparr>bgwprocno := bgw\<rparr>"


text \<open>
  \<^verbatim>\<open>ClockSweepTick\<close>, the helper that moves the clock hand. Run by one process alone, the
  compare-and-exchange of its retry loop succeeds at the first attempt. No function of
  the file calls it.
\<close>

definition ClockSweepTick :: "int \<Rightarrow> strategy_state \<Rightarrow> 32 word \<times> strategy_state" where
  "ClockSweepTick NBuffers s =
     (let victim = nextVictimBuffer s;
          s1 = s\<lparr>nextVictimBuffer := nextVictimBuffer s + 1\<rparr>
      in if victim \<ge> word_of_int NBuffers then
           (let originalVictim = victim;
                victim = victim mod word_of_int NBuffers
            in if victim = 0 then
                 (let expected = originalVictim + 1;
                      wrapped = expected mod word_of_int NBuffers
                  in (victim, s1\<lparr>nextVictimBuffer := wrapped,
                                 completePasses := completePasses s1 + 1\<rparr>))
               else (victim, s1))
         else (victim, s1))"

text \<open>
  \<^verbatim>\<open>StrategyInitialize(true)\<close> on fresh shared memory. The descriptor table is the one
  \<^verbatim>\<open>InitBufferPool\<close> has linked into a free list before the call.
\<close>

definition StrategyInitialize :: "int \<Rightarrow> (int \<Rightarrow> BufferDesc) \<Rightarrow> strategy_state" where
  "StrategyInitialize NBuffers descriptors =
     \<lparr>nextVictimBuffer = 0, firstFreeBuffer = 0, lastFreeBuffer = NBuffers - 1,
      stackTop = None, stackBottom = None, completePasses = 0, numBufferAllocs = 0,
      bgwprocno = - 1,
      elruStack = (\<lambda>i. \<lparr>node_id = i, prev = None, next = None,
                         last_accessed = TIMESTAMP_NIL, second_last_accessed = TIMESTAMP_NIL\<rparr>),
      BufferDescriptors = descriptors, latches_set = []\<rparr>"

section \<open>Notions used in the properties\<close>

text \<open>
  What a re-linking of the stack may change: the \<^verbatim>\<open>prev\<close> and \<^verbatim>\<open>next\<close> fields of the
  nodes and the two ends of the stack, nothing else.
\<close>

definition links_only :: "strategy_state \<Rightarrow> strategy_state \<Rightarrow> bool" where
  "links_only s s' \<longleftrightarrow>
     nextVictimBuffer s' = nextVictimBuffer s \<and> firstFreeBuffer s' = firstFreeBuffer s
     \<and> lastFreeBuffer s' = lastFreeBuffer s \<and> completePasses s' = completePasses s
     \<and> numBufferAllocs s' = numBufferAllocs s \<and> bgwprocno s' = bgwprocno s
     \<and> BufferDescriptors s' = BufferDescriptors s \<and> latches_set s' = latches_set s
     \<and> (\<forall>i. node_id (elruStack s' i) = node_id (elruStack s i)
            \<and> last_accessed (elruStack s' i) = last_accessed (elruStack s i)
            \<and> second_last_accessed (elruStack s' i) = second_last_accessed (elruStack s i))"

text \<open>The first three assignments of \<open>StrategyAccessBuffer\<close>: the access is recorded.\<close>

definition record_access :: "strategy_state \<Rightarrow> int \<Rightarrow> timestamp \<Rightarrow> strategy_state" where
  "record_access s buf_id now =
     set_second_last_accessed (set_last_accessed s buf_id now) buf_id
       (last_accessed (elruStack s buf_id))"

definition counters_kept :: "strategy_state \<Rightarrow> strategy_state \<Rightarrow> bool" where
  "counters_kept s s' \<longleftrightarrow>
     nextVictimBuffer s' = nextVictimBuffer s \<and> completePasses s' = completePasses s
     \<and> numBufferAllocs s' = numBufferAllocs s"

text \<open>The state an error raised by \<^verbatim>\<open>elog\<close> leaves behind.\<close>

fun error_state :: "error \<Rightarrow> strategy_state option" where
  "error_state (Invalid_buffer_index s) = Some s"
| "error_state (No_unpinned_buffer s) = Some s"
| "error_state Null_dereference = None"
| "error_state No_return_value = None"
| "error_state Division_by_zero = None"

text \<open>Whether the ring hands out a buffer, so that \<open>StrategyGetBuffer\<close> returns early.\<close>

definition ring_serves :: "BufferAccessStrategyData option \<Rightarrow> strategy_state \<Rightarrow> bool" where
  "ring_serves strategy s =
     (case strategy of None \<Rightarrow> False | Some st \<Rightarrow> fst (GetBufferFromRing st s) \<noteq> None)"

definition count_alloc :: "strategy_state \<Rightarrow> strategy_state" where
  "count_alloc s = s\<lparr>numBufferAllocs := numBufferAllocs s + 1\<rparr>"

text \<open>
  Sequences of calls of the public operations. A call that raises an error by
  \<^verbatim>\<open>elog\<close> leaves the shared state behind and the run goes on from it; a call with
  undefined behaviour, or one that does not terminate, ends the run with \<open>None\<close>.
  \<open>run\<close> returns the final state and the number of \<open>StrategyGetBuffer\<close> calls that the
  ring did not serve.
\<close>

datatype operation =
    Touch int timestamp
  | Acquire "BufferAccessStrategyData option" timestamp
  | Release int timestamp
  | NotifyBgWriter int

definition continue_with ::
  "(error + 'a) option \<Rightarrow> ('a \<Rightarrow> strategy_state) \<Rightarrow> strategy_state option" where
  "continue_with r f =
     (case r of None \<Rightarrow> None | Some (Inl e) \<Rightarrow> error_state e | Some (Inr x) \<Rightarrow> Some (f x))"

fun exec :: "int \<Rightarrow> strategy_state \<Rightarrow> operation \<Rightarrow> strategy_state option" where
  "exec NBuffers s (Touch b now) =
     continue_with (StrategyAccessBuffer NBuffers s b False now) (\<lambda>s'. s')"
| "exec NBuffers s (Acquire strategy now) =
     continue_with (StrategyGetBuffer NBuffers s strategy now) (\<lambda>(b, fr, st', s'). s')"
| "exec NBuffers s (Release b now) =
     continue_with (StrategyFreeBuffer NBuffers s b now) (\<lambda>s'. s')"
| "exec NBuffers s (NotifyBgWriter p) = Some (StrategyNotifyBgWriter s p)"

fun counted :: "strategy_state \<Rightarrow> operation \<Rightarrow> nat" where
  "counted s (Acquire strategy now) = (if ring_serves strategy s then 0 else 1)"
| "counted s x = 0"

fun run :: "int \<Rightarrow> strategy_state \<Rightarrow> operation list \<Rightarrow> (strategy_state \<times> nat) option" where
  "run NBuffers s [] = Some (s, 0)"
| "run NBuffers s (x # xs) =
     (case exec NBuffers s x of
        None \<Rightarrow> None
      | Some s1 \<Rightarrow>
          (case run NBuffers s1 xs of
             None \<Rightarrow> None
           | Some (s2, k) \<Rightarrow> Some (s2, counted s x + k)))"

text \<open>
  \<open>follows lnk p xs q\<close>: starting at the pointer \<open>p\<close> and following the link \<open>lnk\<close>
  one visits the nodes \<open>xs\<close>, in this order, and arrives at \<open>q\<close>.
\<close>

fun follows :: "(int \<Rightarrow> int option) \<Rightarrow> int option \<Rightarrow> int list \<Rightarrow> int option \<Rightarrow> bool" where
  "follows lnk p [] q \<longleftrightarrow> p = q"
| "follows lnk p (x # xs) q \<longleftrightarrow> p = Some x \<and> follows lnk (lnk x) xs q"

definition prevs :: "strategy_state \<Rightarrow> int \<Rightarrow> int option" where
  "prevs s i = prev (elruStack s i)"

definition nexts :: "strategy_state \<Rightarrow> int \<Rightarrow> int option" where
  "nexts s i = next (elruStack s i)"

text \<open>
  The stack as \<open>StrategyGetBuffer\<close> walks it: from \<open>stackBottom\<close> along the
  \<^verbatim>\<open>prev\<close> links the nodes \<open>xs\<close> are visited, each once, the last of them is
  \<open>stackTop\<close>, and every node carries its own index as \<^verbatim>\<open>node_id\<close>.
\<close>

definition stack_walk :: "strategy_state \<Rightarrow> int list \<Rightarrow> bool" where
  "stack_walk s xs \<longleftrightarrow>
     follows (prevs s) (stackBottom s) xs None \<and> distinct xs
     \<and> (\<forall>x \<in> set xs. node_id (elruStack s x) = x)
     \<and> stackTop s = (if xs = [] then None else Some (last xs))"


text \<open>
  A buffer popped from the free list is used when it is neither pinned nor has a usage
  count; a node of the stack is passed over when its buffer is pinned.
\<close>

definition usable :: "strategy_state \<Rightarrow> int \<Rightarrow> bool" where
  "usable s b \<longleftrightarrow>
     refcount (BufferDescriptors s b) = 0 \<and> usage_count (BufferDescriptors s b) = 0"


definition same_stack_and_pins :: "strategy_state \<Rightarrow> strategy_state \<Rightarrow> bool" where
  "same_stack_and_pins s s' \<longleftrightarrow>
     elruStack s' = elruStack s \<and> stackTop s' = stackTop s \<and> stackBottom s' = stackBottom s
     \<and> (\<forall>b. refcount (BufferDescriptors s' b) = refcount (BufferDescriptors s b)
            \<and> usage_count (BufferDescriptors s' b) = usage_count (BufferDescriptors s b))"


text \<open>
  A doubly linked list in the two link functions: \<open>pv\<close> leads from the bottom \<open>b\<close>
  through \<open>xs\<close>, \<open>nx\<close> leads from the top \<open>t\<close> back through the same nodes.
\<close>

definition dll ::
  "(int \<Rightarrow> int option) \<Rightarrow> (int \<Rightarrow> int option) \<Rightarrow> int option \<Rightarrow> int option \<Rightarrow> int list \<Rightarrow> bool" where
  "dll pv nx b t xs \<longleftrightarrow>
     follows pv b xs None \<and> follows nx t (rev xs) None \<and> distinct xs"

text \<open>
  The stack is the list \<open>xs\<close>, bottom first: \<open>stack_walk\<close>, and the \<^verbatim>\<open>next\<close> links
  lead from \<open>stackTop\<close> back to the bottom.
\<close>

definition elru_list :: "strategy_state \<Rightarrow> int list \<Rightarrow> bool" where
  "elru_list s xs \<longleftrightarrow> stack_walk s xs \<and> follows (nexts s) (stackTop s) (rev xs) None"

text \<open>
  The ELRU key as the specification words it (section 3): the tier, 0 for a node without a
  second-last access and 1 otherwise, then the rank timestamp of the tier. It serves to say
  which nodes ``have an equal key''; the code compares with \<open>compareELRU\<close>.
\<close>

definition spec_key :: "BufferNode \<Rightarrow> nat \<times> timestamp" where
  "spec_key node =
     (if second_last_accessed node = TIMESTAMP_NIL then (0, last_accessed node)
      else (1, second_last_accessed node))"

text \<open>
  A pool in good order for a pool size: the stack is the list \<open>xs\<close> of valid frames as
  \<open>StrategyGetBuffer\<close> walks it, the \<^verbatim>\<open>next\<close> links lead from \<open>stackTop\<close> down to
  the bottom node, every node of the array carries its index, and the nodes outside the
  stack have no links. Nothing is asked of the \<^verbatim>\<open>next\<close> link of the bottom node: the
  code leaves a stale one there when it links a node below the only node of the stack. A
  ring in good order holds in each slot \<open>InvalidBuffer\<close> or a buffer number of the pool.
\<close>

definition stack_ok :: "int \<Rightarrow> strategy_state \<Rightarrow> int list \<Rightarrow> bool" where
  "stack_ok NBuffers s xs \<longleftrightarrow>
     stack_walk s xs
     \<and> follows (nexts s) (stackTop s) (rev (tl xs)) (if xs = [] then None else Some (hd xs))
     \<and> (\<forall>i \<in> set xs. 0 \<le> i \<and> i < NBuffers)
     \<and> (\<forall>i. 0 \<le> i \<and> i < NBuffers \<longrightarrow> node_id (elruStack s i) = i)
     \<and> (\<forall>i. 0 \<le> i \<and> i < NBuffers \<and> i \<notin> set xs \<longrightarrow> prevs s i = None \<and> nexts s i = None)"



section \<open>Example pools\<close>

text \<open>
  A pool of four buffers. \<open>pool_initial\<close> is the state after initialisation, with all
  four buffers on the free list; \<open>pool_one\<close> and \<open>pool_two\<close> are the states after
  the first and the second call of \<open>StrategyGetBuffer\<close>, one and two seconds after the
  clock's origin (lemmas \<open>pool_one_reached\<close> and \<open>pool_two_reached\<close>).
\<close>

definition fresh_node :: "int \<Rightarrow> BufferNode" where
  "fresh_node i = \<lparr>node_id = i, prev = None, next = None,
     last_accessed = TIMESTAMP_NIL, second_last_accessed = TIMESTAMP_NIL\<rparr>"

definition unused_desc :: "int \<Rightarrow> BufferDesc" where
  "unused_desc nxt = \<lparr>refcount = 0, usage_count = 0, freeNext = nxt\<rparr>"

definition linked_descs :: "int \<Rightarrow> BufferDesc" where
  "linked_descs = (\<lambda>i. unused_desc (if i = 3 then - 1 else i + 1))"

definition pool_initial :: strategy_state where
  "pool_initial = StrategyInitialize 4 linked_descs"

definition pool_one :: strategy_state where
  "pool_one = \<lparr>nextVictimBuffer = 0, firstFreeBuffer = 1, lastFreeBuffer = 3,
     stackTop = Some 0, stackBottom = Some 0, completePasses = 0, numBufferAllocs = 1,
     bgwprocno = - 1,
     elruStack = fresh_node(0 := (fresh_node 0)\<lparr>last_accessed := 1000000000\<rparr>),
     BufferDescriptors = linked_descs(0 := unused_desc FREENEXT_NOT_IN_LIST),
     latches_set = []\<rparr>"

definition pool_two :: strategy_state where
  "pool_two = \<lparr>nextVictimBuffer = 0, firstFreeBuffer = 2, lastFreeBuffer = 3,
     stackTop = Some 1, stackBottom = Some 0, completePasses = 0, numBufferAllocs = 2,
     bgwprocno = - 1,
     elruStack = fresh_node(0 := (fresh_node 0)\<lparr>prev := Some 1, last_accessed := 1000000000\<rparr>,
                            1 := (fresh_node 1)\<lparr>next := Some 0, last_accessed := 2000000000\<rparr>),
     BufferDescriptors = linked_descs(0 := unused_desc FREENEXT_NOT_IN_LIST,
                                      1 := unused_desc FREENEXT_NOT_IN_LIST),
     latches_set = []\<rparr>"


text \<open>
  \<open>pool_pinned\<close>: every buffer is pinned; frame 0 is the only node of the stack and
  frame 1 is on the free list. \<open>pool_empty\<close>: the same with nothing on the free list and
  nothing in the stack.
\<close>

definition pool_pinned :: strategy_state where
  "pool_pinned = \<lparr>nextVictimBuffer = 0, firstFreeBuffer = 1, lastFreeBuffer = 1,
     stackTop = Some 0, stackBottom = Some 0, completePasses = 0, numBufferAllocs = 1,
     bgwprocno = - 1,
     elruStack = fresh_node(0 := (fresh_node 0)\<lparr>last_accessed := 1000000000\<rparr>),
     BufferDescriptors = (\<lambda>i. \<lparr>refcount = 1, usage_count = 1, freeNext = FREENEXT_NOT_IN_LIST\<rparr>)
        (1 := \<lparr>refcount = 1, usage_count = 1, freeNext = - 1\<rparr>),
     latches_set = []\<rparr>"

definition pool_empty :: strategy_state where
  "pool_empty = pool_pinned\<lparr>firstFreeBuffer := - 1, stackTop := None, stackBottom := None,
     elruStack := fresh_node\<rparr>"

text \<open>
  \<open>pool_both_twice\<close>: the free list is empty, both nodes of the stack have been
  accessed twice, and frame 0, the bottom node, is pinned. \<open>pool_stale\<close> is the state
  after \<open>StrategyGetBuffer\<close> has taken frame 1 from the top and linked it below frame 0,
  three seconds after the clock's origin (lemma \<open>pool_stale_reached\<close>): frame 1, the new
  bottom node, still has the \<^verbatim>\<open>next\<close> link it had on top.
\<close>

definition pool_both_twice :: strategy_state where
  "pool_both_twice = pool_two\<lparr>firstFreeBuffer := - 1,
     elruStack := fresh_node
       (0 := (fresh_node 0)\<lparr>prev := Some 1, last_accessed := 2500000000,
                              second_last_accessed := 1000000000\<rparr>,
        1 := (fresh_node 1)\<lparr>next := Some 0, last_accessed := 2700000000,
                              second_last_accessed := 2000000000\<rparr>),
     BufferDescriptors := (BufferDescriptors pool_two)
       (0 := \<lparr>refcount = 1, usage_count = 1, freeNext = FREENEXT_NOT_IN_LIST\<rparr>)\<rparr>"

definition pool_stale :: strategy_state where
  "pool_stale = pool_both_twice\<lparr>stackTop := Some 0, stackBottom := Some 1, numBufferAllocs := 3,
     elruStack := fresh_node
       (0 := (fresh_node 0)\<lparr>next := Some 1, last_accessed := 2500000000,
                              second_last_accessed := 1000000000\<rparr>,
        1 := (fresh_node 1)\<lparr>prev := Some 0, next := Some 0,
                              last_accessed := 3000000000\<rparr>)\<rparr>"

text \<open>Two once-touched nodes whose last accesses lie \<open>2^31\<close> nanoseconds apart.\<close>

definition node_late :: BufferNode where
  "node_late = \<lparr>node_id = 0, prev = None, next = None,
     last_accessed = 3147483648, second_last_accessed = TIMESTAMP_NIL\<rparr>"

definition node_early :: BufferNode where
  "node_early = \<lparr>node_id = 1, prev = None, next = None,
     last_accessed = 1000000000, second_last_accessed = TIMESTAMP_NIL\<rparr>"

section \<open>Properties\<close>

subsection \<open>Running the model on the example pools\<close>

lemmas setters =
  set_prev_def set_next_def set_last_accessed_def set_second_last_accessed_def set_freeNext_def

lemmas links = link_as_top_def link_below_sole_def link_below_def link_as_bottom_def

lemmas examples =
  fresh_node_def unused_desc_def linked_descs_def pool_initial_def pool_one_def pool_two_def
  pool_pinned_def pool_empty_def pool_both_twice_def pool_stale_def StrategyInitialize_def

lemmas run_defs =
  StrategyAccessBuffer_def processStackBottomToTop_def processStack_loop.simps
  compareELRU_def isRemovedNode_def TIMESTAMP_NIL_def links Let_def long_long_to_int_def
  StrategyGetBuffer_def StrategyGetBuffer_shared_def freelist_loop.simps lru_loop.simps
  wake_bgwriter_def FREENEXT_NOT_IN_LIST_def StrategyFreeBuffer_def unlink_middle_def
  walk_prev.simps setters

lemma pool_one_reached:
  "StrategyGetBuffer 4 pool_initial None 1000000000 = Some (Inr (0, False, None, pool_one))"
  by (simp add: run_defs examples fun_eq_iff)

lemma pool_two_reached:
  "StrategyGetBuffer 4 pool_one None 2000000000 = Some (Inr (1, False, None, pool_two))"
  by (simp add: run_defs examples fun_eq_iff)

subsection \<open>Releasing a frame\<close>

text \<open>
  C1: after \<open>StrategyFreeBuffer\<close> the frame is not resident in the stack, its timestamps
  are nil and its links are none. The code does the opposite: \<open>StrategyFreeBuffer\<close>
  calls \<open>StrategyAccessBuffer\<close> with \<open>delete = true\<close>, whose removal branch stands under
  \<^verbatim>\<open>if (false)\<close>, so the call records one more access. Releasing frame 0 of
  \<open>pool_two\<close> puts it on the free list and on the top of the stack, with both
  timestamps set and a link to frame 1.
\<close>

theorem StrategyFreeBuffer_leaves_frame_resident:
  "(case StrategyFreeBuffer 4 pool_two 0 3000000000 of
      Some (Inr s') \<Rightarrow>
        firstFreeBuffer s' = 0 \<and> stackTop s' = Some 0 \<and> stackBottom s' = Some 1
        \<and> last_accessed (elruStack s' 0) = 3000000000
        \<and> second_last_accessed (elruStack s' 0) = 1000000000
        \<and> next (elruStack s' 0) = Some 1 \<and> prev (elruStack s' 1) = Some 0
    | _ \<Rightarrow> False)"
  by (simp add: run_defs examples)

text \<open>The \<open>delete\<close> flag has no effect at all.\<close>

lemma StrategyAccessBuffer_ignores_delete:
  "StrategyAccessBuffer NBuffers s buf_id True now = StrategyAccessBuffer NBuffers s buf_id False now"
  by (simp add: StrategyAccessBuffer_def)

subsection \<open>Touching the only resident frame\<close>

text \<open>
  C6: touching a resident frame unlinks it without dereferencing a none link, also when
  the frame is the only node of the stack. In \<open>pool_one\<close> frame 0 is the only node: its
  \<^verbatim>\<open>prev\<close> is \<^verbatim>\<open>NULL\<close>, the code takes the ``node at bottom'' branch and executes
  \<^verbatim>\<open>curr->prev->next = NULL\<close>.
\<close>

theorem StrategyAccessBuffer_sole_node_null_dereference:
  "stackTop pool_one = Some 0 \<and> stackBottom pool_one = Some 0
   \<and> prev (elruStack pool_one 0) = None \<and> next (elruStack pool_one 0) = None
   \<and> StrategyAccessBuffer 4 pool_one 0 False 2000000000 = Some (Inl Null_dereference)"
  by (simp add: run_defs examples)

subsection \<open>The order of the stack\<close>

text \<open>
  C3: after every operation the stack is sorted by the ELRU key from the bottom to the top.
  \<open>StrategyGetBuffer\<close> on \<open>pool_one\<close>, 2.147483648 seconds after frame 0 was touched,
  takes frame 1 from the free list and inserts it below frame 0: both nodes are touched
  once (tier 0), and the bottom node has the later access. The comparator's truncated
  difference is negative there.
\<close>

theorem StrategyGetBuffer_breaks_order:
  "(case StrategyGetBuffer 4 pool_one None 3147483648 of
      Some (Inr (buf, from_ring, st, s')) \<Rightarrow>
        buf = 1 \<and> stackBottom s' = Some 1 \<and> prev (elruStack s' 1) = Some 0
        \<and> stackTop s' = Some 0 \<and> prev (elruStack s' 0) = None
        \<and> second_last_accessed (elruStack s' 1) = TIMESTAMP_NIL
        \<and> second_last_accessed (elruStack s' 0) = TIMESTAMP_NIL
        \<and> sint (last_accessed (elruStack s' 0)) < sint (last_accessed (elruStack s' 1))
    | _ \<Rightarrow> False)"
  by (simp add: run_defs examples)

subsection \<open>The comparator on timestamps far apart\<close>

text \<open>
  C10: the sign of \<^verbatim>\<open>compareELRU\<close> is that of the difference of the rank timestamps.
  It is not: two once-touched nodes whose last accesses lie \<open>2^31\<close> nanoseconds apart
  (about 2.1 seconds) compare the wrong way round, the later node as the smaller one.
\<close>

theorem compareELRU_truncation_flips_sign:
  "sint (last_accessed node_early) < sint (last_accessed node_late)
   \<and> \<not> isRemovedNode node_late \<and> \<not> isRemovedNode node_early
   \<and> second_last_accessed node_late = TIMESTAMP_NIL
   \<and> second_last_accessed node_early = TIMESTAMP_NIL
   \<and> compareELRU node_late node_early = - 2147483648"
  by (simp add: compareELRU_def isRemovedNode_def node_late_def node_early_def
      TIMESTAMP_NIL_def long_long_to_int_def)

subsection \<open>A new ring\<close>

lemma ring_budget_ge_8:
  assumes "1024 \<le> BLCKSZ" "BLCKSZ \<le> 32768" "256 \<le> (kb::int)"
  shows "8 \<le> kb div (BLCKSZ div 1024)"
proof -
  have d: "1 \<le> BLCKSZ div 1024" "BLCKSZ div 1024 \<le> 32"
    using assms by simp_all
  have "(256::int) div 32 \<le> 256 div (BLCKSZ div 1024)"
    using d by (intro zdiv_mono2) simp_all
  also have "\<dots> \<le> kb div (BLCKSZ div 1024)"
    using assms(3) d by (intro zdiv_mono1) simp_all
  finally show ?thesis by simp
qed

lemma sdiv_nonneg:
  "0 \<le> k \<Longrightarrow> 0 \<le> l \<Longrightarrow> k sdiv l = k div (l::int)"
  by (simp add: signed_divide_int_def sgn_if)

lemma GetAccessStrategyWithSize_ring:
  assumes "0 \<le> NBuffers" "1024 \<le> BLCKSZ" "0 \<le> kb"
    and "2 \<le> NBuffers div 8" "2 \<le> kb div (BLCKSZ div 1024)"
  shows "GetAccessStrategyWithSize NBuffers BLCKSZ bt kb =
     Inr (Some \<lparr>btype = bt, nbuffers = min (NBuffers div 8) (kb div (BLCKSZ div 1024)),
           current = 0, buffers = (\<lambda>i. 0)\<rparr>)"
proof -
  have d: "BLCKSZ sdiv 1024 = BLCKSZ div 1024" "1 \<le> BLCKSZ div 1024"
    using assms(2) by (simp_all add: sdiv_nonneg)
  have "kb sdiv (BLCKSZ div 1024) = kb div (BLCKSZ div 1024)"
    "NBuffers sdiv 8 = NBuffers div 8"
    using assms(1,3) d(2) by (simp_all add: sdiv_nonneg)
  then show ?thesis
    using assms(4,5) d by (simp add: GetAccessStrategyWithSize_def Let_def)
qed

lemma GetBufferFromRing_fresh:
  assumes "2 \<le> k"
  shows "GetBufferFromRing \<lparr>btype = bt, nbuffers = k, current = 0, buffers = (\<lambda>i. 0)\<rparr> s =
     (None, \<lparr>btype = bt, nbuffers = k, current = 1, buffers = (\<lambda>i. 0)\<rparr>)"
  using assms by (simp add: GetBufferFromRing_def Let_def InvalidBuffer_def)

text \<open>
  C8, as the code has it: for a pool of at least 16 buffers and a page size between 1 kB
  and 32 kB, \<open>GetAccessStrategy\<close> of a kind other than \<open>BAS_NORMAL\<close> returns a ring of
  \<open>k = min (NBuffers / 8) (budget / page size)\<close> slots, \<open>k \<ge> 2\<close>, all of them
  \<open>InvalidBuffer\<close>, with \<open>current = 0\<close> (the allocation zeroes it); the first
  \<open>GetBufferFromRing\<close> therefore moves to slot 1, finds it empty and returns nothing.
  \<open>BAS_NORMAL\<close> yields no ring.
\<close>

theorem GetAccessStrategy_ring_cursor_zero:
  assumes "bt \<noteq> BAS_NORMAL" "16 \<le> NBuffers" "1024 \<le> BLCKSZ" "BLCKSZ \<le> 32768"
  shows "GetAccessStrategy NBuffers BLCKSZ BAS_NORMAL = Inr None
    \<and> (\<exists>r. GetAccessStrategy NBuffers BLCKSZ bt = Inr (Some r)
         \<and> btype r = bt
         \<and> nbuffers r = min (NBuffers div 8)
              ((case bt of BAS_BULKWRITE \<Rightarrow> 16384 | _ \<Rightarrow> 256) div (BLCKSZ div 1024))
         \<and> 2 \<le> nbuffers r
         \<and> (\<forall>i. buffers r i = InvalidBuffer)
         \<and> current r = 0
         \<and> GetBufferFromRing r s = (None, r\<lparr>current := 1\<rparr>))"
proof -
  define kb :: int where "kb = (case bt of BAS_BULKWRITE \<Rightarrow> 16384 | _ \<Rightarrow> 256)"
  define k where "k = min (NBuffers div 8) (kb div (BLCKSZ div 1024))"
  have kb: "256 \<le> kb" by (simp add: kb_def split: BufferAccessStrategyType.splits)
  have b8: "8 \<le> kb div (BLCKSZ div 1024)"
    using ring_budget_ge_8 [OF assms(3,4) kb] .
  have n2: "2 \<le> NBuffers div 8" using assms(2) by simp
  have k2: "2 \<le> k" using b8 n2 by (simp add: k_def)
  have "GetAccessStrategy NBuffers BLCKSZ bt = GetAccessStrategyWithSize NBuffers BLCKSZ bt kb"
    using assms(1) by (cases bt) (simp_all add: GetAccessStrategy_def kb_def)
  also have "\<dots> = Inr (Some \<lparr>btype = bt, nbuffers = k, current = 0, buffers = (\<lambda>i. 0)\<rparr>)"
    unfolding k_def using n2 b8 assms(2,3) kb by (intro GetAccessStrategyWithSize_ring) simp_all
  finally have r: "GetAccessStrategy NBuffers BLCKSZ bt =
      Inr (Some \<lparr>btype = bt, nbuffers = k, current = 0, buffers = (\<lambda>i. 0)\<rparr>)" .
  have normal: "GetAccessStrategy NBuffers BLCKSZ BAS_NORMAL = Inr None"
    by (simp add: GetAccessStrategy_def)
  show ?thesis
    unfolding kb_def [symmetric] k_def [symmetric]
    using r normal k2 GetBufferFromRing_fresh [OF k2, of bt s]
    by (simp add: InvalidBuffer_def)
qed

theorem GetAccessStrategy_ring_cursor_zero_witness:
  "\<exists>r. GetAccessStrategy 16 8192 BAS_BULKREAD = Inr (Some r) \<and> nbuffers r = 2 \<and> current r = 0
     \<and> GetBufferFromRing r pool_initial = (None, r\<lparr>current := 1\<rparr>)"
  using GetAccessStrategy_ring_cursor_zero [of BAS_BULKREAD 16 8192 pool_initial]
  by auto

text \<open>
  The claim as stated fails: the bulk-read ring of a pool of 16 buffers with 8 kB pages has
  two slots and its cursor is 0, not \<open>k - 1 = 1\<close>; the first \<open>GetBufferFromRing\<close>
  examines slot 1, not slot 0.
\<close>

theorem GetAccessStrategy_cursor_not_last_slot:
  "(case GetAccessStrategy 16 8192 BAS_BULKREAD of
      Inr (Some r) \<Rightarrow> nbuffers r = 2 \<and> current r \<noteq> nbuffers r - 1
        \<and> current (snd (GetBufferFromRing r pool_initial)) = 1
    | _ \<Rightarrow> False)"
  by (simp add: GetAccessStrategy_def GetAccessStrategyWithSize_def Let_def InvalidBuffer_def
        GetBufferFromRing_def signed_divide_int_def)

subsection \<open>What an access changes\<close>

lemma links_only_refl [simp]: "links_only s s"
  by (simp add: links_only_def)

lemma links_only_trans: "links_only s s1 \<Longrightarrow> links_only s1 s2 \<Longrightarrow> links_only s s2"
  by (simp add: links_only_def)

lemma links_only_set_prev [simp]: "links_only s (set_prev s' p v) = links_only s s'"
  by (auto simp add: links_only_def set_prev_def)

lemma links_only_set_next [simp]: "links_only s (set_next s' p v) = links_only s s'"
  by (auto simp add: links_only_def set_next_def)

lemma links_only_stackTop [simp]: "links_only s (s'\<lparr>stackTop := t\<rparr>) = links_only s s'"
  by (simp add: links_only_def)

lemma links_only_stackBottom [simp]: "links_only s (s'\<lparr>stackBottom := t\<rparr>) = links_only s s'"
  by (simp add: links_only_def)

lemma links_only_set_prev' [simp]: "links_only (set_prev s p v) s' = links_only s s'"
  by (auto simp add: links_only_def set_prev_def)

lemma links_only_set_next' [simp]: "links_only (set_next s p v) s' = links_only s s'"
  by (auto simp add: links_only_def set_next_def)

lemma links_only_stackTop' [simp]: "links_only (s\<lparr>stackTop := t\<rparr>) s' = links_only s s'"
  by (simp add: links_only_def)

lemma links_only_stackBottom' [simp]: "links_only (s\<lparr>stackBottom := t\<rparr>) s' = links_only s s'"
  by (simp add: links_only_def)

lemma links_only_link [simp]:
  "links_only s (link_as_top s' n c) = links_only s s'"
  "links_only s (link_below_sole s' n c) = links_only s s'"
  "links_only s (link_below s' n c cn) = links_only s s'"
  "links_only s (link_as_bottom s' n c) = links_only s s'"
  by (simp_all add: links Let_def)

lemma processStack_loop_links_only:
  "processStack_loop s n c = Some r \<Longrightarrow>
     (case r of Inl e \<Rightarrow> e = Null_dereference | Inr s' \<Rightarrow> links_only s s')"
proof (induction rule: processStack_loop.raw_induct [rotated 1, consumes 1])
  case (1 f s n c r)
  then show ?case
    by (auto split: option.splits if_splits)
qed

lemma processStackBottomToTop_links_only:
  "processStackBottomToTop s n = Some r \<Longrightarrow>
     (case r of Inl e \<Rightarrow> e = Null_dereference | Inr s' \<Rightarrow> links_only s s')"
  by (auto simp: processStackBottomToTop_def Let_def split: option.splits
      dest: processStack_loop_links_only)

lemma links_only_unlink_middle [simp]: "links_only (unlink_middle s c) s' = links_only s s'"
  by (simp add: unlink_middle_def Let_def split: option.splits)

lemma StrategyAccessBuffer_result:
  assumes "StrategyAccessBuffer NBuffers s buf_id d now = Some r"
  shows "case r of
           Inl e \<Rightarrow> e = Invalid_buffer_index s \<or> e = Null_dereference
         | Inr s' \<Rightarrow> 0 \<le> buf_id \<and> buf_id < NBuffers \<and> links_only (record_access s buf_id now) s'"
proof (cases "buf_id < 0 \<or> buf_id \<ge> NBuffers")
  case True
  with assms show ?thesis by (auto simp: StrategyAccessBuffer_def)
next
  case False
  define s2 where "s2 = record_access s buf_id now"
  have "case r of Inl e \<Rightarrow> e = Null_dereference | Inr s' \<Rightarrow> links_only s2 s'"
    using assms False
    unfolding StrategyAccessBuffer_def Let_def record_access_def [symmetric] s2_def [symmetric]
    by (auto split: option.splits if_splits sum.splits
        dest!: processStackBottomToTop_links_only)
  then show ?thesis using False by (auto simp: s2_def split: sum.splits)
qed


lemma counters_kept_refl [simp]: "counters_kept s s"
  by (simp add: counters_kept_def)

lemma counters_kept_trans: "counters_kept s s1 \<Longrightarrow> counters_kept s1 s2 \<Longrightarrow> counters_kept s s2"
  by (simp add: counters_kept_def)

lemma links_only_counters_kept: "links_only s s' \<Longrightarrow> counters_kept s s'"
  by (simp add: links_only_def counters_kept_def)

lemma counters_kept_record_access [simp]:
  "counters_kept (record_access s b now) s' = counters_kept s s'"
  by (simp add: counters_kept_def record_access_def setters)

lemma counters_kept_updates [simp]:
  "counters_kept (set_freeNext s b v) s' = counters_kept s s'"
  "counters_kept (set_last_accessed s b t) s' = counters_kept s s'"
  "counters_kept (set_second_last_accessed s b t) s' = counters_kept s s'"
  "counters_kept (s\<lparr>firstFreeBuffer := f\<rparr>) s' = counters_kept s s'"
  "counters_kept (s\<lparr>lastFreeBuffer := f\<rparr>) s' = counters_kept s s'"
  "counters_kept (wake_bgwriter s) s' = counters_kept s s'"
  by (simp_all add: counters_kept_def setters wake_bgwriter_def Let_def)

lemma links_only_timestamps:
  "links_only s s' \<Longrightarrow> last_accessed (elruStack s' i) = last_accessed (elruStack s i)
     \<and> second_last_accessed (elruStack s' i) = second_last_accessed (elruStack s i)"
  by (simp add: links_only_def)

lemma record_access_timestamps [simp]:
  "last_accessed (elruStack (record_access s b now) b) = now"
  "second_last_accessed (elruStack (record_access s b now) b) = last_accessed (elruStack s b)"
  by (simp_all add: record_access_def setters)

lemma StrategyAccessBuffer_Inr:
  assumes "StrategyAccessBuffer NBuffers s buf_id d now = Some (Inr s')"
  shows "counters_kept s s'" "last_accessed (elruStack s' buf_id) = now"
    "second_last_accessed (elruStack s' buf_id) = last_accessed (elruStack s buf_id)"
proof -
  have l: "links_only (record_access s buf_id now) s'"
    using StrategyAccessBuffer_result [OF assms] by simp
  show "counters_kept s s'" using links_only_counters_kept [OF l] by simp
  show "last_accessed (elruStack s' buf_id) = now"
    "second_last_accessed (elruStack s' buf_id) = last_accessed (elruStack s buf_id)"
    using links_only_timestamps [OF l, of buf_id] by simp_all
qed

lemma StrategyAccessBuffer_Inr_all:
  assumes "StrategyAccessBuffer NBuffers s buf_id d now = Some (Inr s')"
  shows "counters_kept s s' \<and> last_accessed (elruStack s' buf_id) = now
    \<and> second_last_accessed (elruStack s' buf_id) = last_accessed (elruStack s buf_id)"
  using StrategyAccessBuffer_Inr [OF assms] by simp

lemma StrategyAccessBuffer_Inl:
  assumes "StrategyAccessBuffer NBuffers s buf_id d now = Some (Inl e)"
  shows "e = Invalid_buffer_index s \<or> e = Null_dereference"
  using StrategyAccessBuffer_result [OF assms] by simp

lemma freelist_loop_result:
  "freelist_loop NBuffers s now = Some r \<Longrightarrow>
     (case r of
        Inr (ob, s') \<Rightarrow> counters_kept s s' \<and> (\<forall>b. ob = Some b \<longrightarrow> last_accessed (elruStack s' b) = now)
      | Inl e \<Rightarrow> (\<forall>se. error_state e = Some se \<longrightarrow> counters_kept s se)
                 \<and> (\<forall>se. e \<noteq> No_unpinned_buffer se))"
proof (induction rule: freelist_loop.raw_induct [rotated 1, consumes 1])
  case (1 f NBuffers s now r)
  show ?case
  proof (cases "firstFreeBuffer s < 0")
    case True
    with 1(2) show ?thesis by auto
  next
    case False
    define s2 where "s2 = set_freeNext (s\<lparr>firstFreeBuffer :=
        freeNext (BufferDescriptors s (firstFreeBuffer s))\<rparr>)
        (firstFreeBuffer s) FREENEXT_NOT_IN_LIST"
    have k: "counters_kept s s2" by (simp add: s2_def counters_kept_def set_freeNext_def)
    show ?thesis
    proof (cases "refcount (BufferDescriptors s2 (firstFreeBuffer s)) = 0
        \<and> usage_count (BufferDescriptors s2 (firstFreeBuffer s)) = 0")
      case True
      with 1(2) False show ?thesis
        unfolding Let_def s2_def [symmetric]
        using k
        by (auto split: option.splits sum.splits
            dest: StrategyAccessBuffer_Inr StrategyAccessBuffer_Inl counters_kept_trans)
    next
      case usable: False
      from 1(2) False usable have "f NBuffers s2 now = Some r"
        unfolding Let_def s2_def [symmetric] by (simp split: if_splits)
      from 1(1) [OF this] k show ?thesis
        by (auto split: sum.splits dest: counters_kept_trans)
    qed
  qed
qed


lemma lru_loop_result:
  "lru_loop NBuffers s victim now = Some r \<Longrightarrow>
     (case r of
        Inr None \<Rightarrow> True
      | Inr (Some (b, s')) \<Rightarrow> counters_kept s s' \<and> last_accessed (elruStack s' b) = now
      | Inl e \<Rightarrow> (\<forall>se. error_state e = Some se \<longrightarrow> counters_kept s se))"
proof (induction rule: lru_loop.raw_induct [rotated 1, consumes 1])
  case (1 f NBuffers s victim now r)
  show ?case
  proof (cases victim)
    case None
    with 1(2) show ?thesis by auto
  next
    case (Some v)
    show ?thesis
    proof (cases "refcount (BufferDescriptors s (node_id (elruStack s v))) = 0")
      case True
      with 1(2) Some show ?thesis
        by (auto simp: Let_def counters_kept_def setters split: option.splits sum.splits
            dest!: StrategyAccessBuffer_Inr_all StrategyAccessBuffer_Inl)
    next
      case False
      with 1(2) Some have "r = Inl Null_dereference \<or> r = Inl (No_unpinned_buffer s)
        \<or> f NBuffers s (prev (elruStack s v)) now = Some r"
        by (simp add: Let_def split: option.splits if_splits)
      then show ?thesis
        using 1(1) [of NBuffers s "prev (elruStack s v)" now r] by auto
    qed
  qed
qed

lemma StrategyGetBuffer_shared_result:
  assumes "StrategyGetBuffer_shared NBuffers s strategy now = Some r"
  shows "case r of
           Inr (b, fr, st', s') \<Rightarrow>
             \<not> fr \<and> st' = strategy \<and> counters_kept (count_alloc s) s'
             \<and> last_accessed (elruStack s' b) = now
         | Inl e \<Rightarrow> (\<forall>se. error_state e = Some se \<longrightarrow> counters_kept (count_alloc s) se)"
proof -
  define s2 where "s2 = (wake_bgwriter s)\<lparr>numBufferAllocs := numBufferAllocs (wake_bgwriter s) + 1\<rparr>"
  have k: "counters_kept (count_alloc s) s2"
    by (simp add: s2_def count_alloc_def counters_kept_def wake_bgwriter_def Let_def)
  define fl where "fl = (if firstFreeBuffer s2 \<ge> 0 then freelist_loop NBuffers s2 now
               else Some (Inr (None, s2)))"
  have fl: "fl = Some x \<Longrightarrow> (case x of
        Inr (ob, s') \<Rightarrow> counters_kept s2 s' \<and> (\<forall>b. ob = Some b \<longrightarrow> last_accessed (elruStack s' b) = now)
      | Inl e \<Rightarrow> (\<forall>se. error_state e = Some se \<longrightarrow> counters_kept s2 se))" for x
    using freelist_loop_result [of NBuffers s2 now x]
    by (auto simp: fl_def split: if_splits sum.splits)
  from assms show ?thesis
    unfolding StrategyGetBuffer_shared_def Let_def s2_def [symmetric] fl_def [symmetric]
    using k
    by (auto split: option.splits sum.splits prod.splits
        dest!: fl lru_loop_result simp: counters_kept_def)
qed

lemma StrategyGetBuffer_result:
  assumes "StrategyGetBuffer NBuffers s strategy now = Some r"
  shows "case r of
           Inr (b, fr, st', s') \<Rightarrow>
             fr = ring_serves strategy s \<and> last_accessed (elruStack s' b) = now
             \<and> counters_kept (if ring_serves strategy s then s else count_alloc s) s'
         | Inl e \<Rightarrow> (\<forall>se. error_state e = Some se \<longrightarrow>
               counters_kept (if ring_serves strategy s then s else count_alloc s) se)"
proof (cases strategy)
  case None
  with assms StrategyGetBuffer_shared_result [of NBuffers s None now r] show ?thesis
    by (auto simp: StrategyGetBuffer_def ring_serves_def split: sum.splits)
next
  case (Some st)
  show ?thesis
  proof (cases "fst (GetBufferFromRing st s)")
    case None
    with assms Some
      StrategyGetBuffer_shared_result [of NBuffers s "Some (snd (GetBufferFromRing st s))" now r]
    show ?thesis
      by (auto simp: StrategyGetBuffer_def ring_serves_def split: sum.splits prod.splits)
  next
    case (Some b)
    with assms \<open>strategy = Some st\<close> show ?thesis
      by (auto simp: StrategyGetBuffer_def ring_serves_def
          split: sum.splits prod.splits option.splits
          dest: StrategyAccessBuffer_Inr StrategyAccessBuffer_Inl)
  qed
qed

subsection \<open>The clock hand\<close>

lemma StrategySyncStart_result:
  assumes "0 < NBuffers" "NBuffers < 2 ^ 31"
  shows "fst (StrategySyncStart NBuffers s True wa) = uint (nextVictimBuffer s) mod NBuffers"
    "fst (snd (StrategySyncStart NBuffers s True wa)) =
       Some (completePasses s + word_of_int (uint (nextVictimBuffer s) div NBuffers))"
proof -
  have u: "uint (word_of_int NBuffers :: 32 word) = NBuffers"
    using assms by (simp add: uint_word_of_int take_bit_int_eq_self)
  show "fst (StrategySyncStart NBuffers s True wa) = uint (nextVictimBuffer s) mod NBuffers"
    by (simp add: StrategySyncStart_def Let_def uint_mod u)
  have "nextVictimBuffer s div word_of_int NBuffers =
      word_of_int (uint (nextVictimBuffer s div word_of_int NBuffers))"
    by simp
  also have "\<dots> = word_of_int (uint (nextVictimBuffer s) div NBuffers)"
    by (simp only: uint_div u)
  finally show "fst (snd (StrategySyncStart NBuffers s True wa)) =
       Some (completePasses s + word_of_int (uint (nextVictimBuffer s) div NBuffers))"
    by (simp add: StrategySyncStart_def Let_def)
qed

text \<open>
  C5, as the code has it: \<open>StrategyGetBuffer\<close> never moves the clock hand. Whether a call
  returns a buffer, by the ring or not, or raises an error by \<^verbatim>\<open>elog\<close>, the state it
  leaves has \<open>nextVictimBuffer\<close> and \<open>completePasses\<close> as they were
  (\<open>ClockSweepTick\<close> is not called), so the start index
  \<open>nextVictimBuffer mod NBuffers\<close> of \<open>StrategySyncStart\<close> stays where it was; the pass
  count it returns is \<open>completePasses + nextVictimBuffer / NBuffers\<close> in 32-bit
  arithmetic.
\<close>

theorem StrategyGetBuffer_keeps_clock_hand:
  assumes "StrategyGetBuffer NBuffers s strategy now = Some (Inr (buf, from_ring, st', s'))
      \<or> (\<exists>e. StrategyGetBuffer NBuffers s strategy now = Some (Inl e) \<and> error_state e = Some s')"
    and "0 < NBuffers" and "NBuffers < 2 ^ 31"
  shows "nextVictimBuffer s' = nextVictimBuffer s \<and> completePasses s' = completePasses s
     \<and> fst (StrategySyncStart NBuffers s' True want_allocs) = uint (nextVictimBuffer s) mod NBuffers
     \<and> fst (snd (StrategySyncStart NBuffers s' True want_allocs)) =
         Some (completePasses s + word_of_int (uint (nextVictimBuffer s) div NBuffers))"
proof -
  have k: "nextVictimBuffer s' = nextVictimBuffer s \<and> completePasses s' = completePasses s"
    using assms(1)
  proof
    assume "StrategyGetBuffer NBuffers s strategy now = Some (Inr (buf, from_ring, st', s'))"
    from StrategyGetBuffer_result [OF this] show ?thesis
      by (auto simp: counters_kept_def count_alloc_def split: if_splits)
  next
    assume "\<exists>e. StrategyGetBuffer NBuffers s strategy now = Some (Inl e) \<and> error_state e = Some s'"
    then obtain e where e: "StrategyGetBuffer NBuffers s strategy now = Some (Inl e)"
      "error_state e = Some s'" by blast
    from StrategyGetBuffer_result [OF e(1)] e(2) show ?thesis
      by (auto simp: counters_kept_def count_alloc_def split: if_splits)
  qed
  show ?thesis
    using k StrategySyncStart_result [OF assms(2,3), of s' want_allocs] by simp
qed

theorem StrategyGetBuffer_keeps_clock_hand_witness:
  "StrategyGetBuffer 4 pool_one None 2000000000 = Some (Inr (1, False, None, pool_two))
   \<and> nextVictimBuffer pool_two = nextVictimBuffer pool_one
   \<and> completePasses pool_two = completePasses pool_one
   \<and> fst (StrategySyncStart 4 pool_two True True) = uint (nextVictimBuffer pool_one) mod 4
   \<and> fst (snd (StrategySyncStart 4 pool_two True True)) =
         Some (completePasses pool_one + word_of_int (uint (nextVictimBuffer pool_one) div 4))
   \<and> (\<exists>se. StrategyGetBuffer 4 pool_pinned None 2000000000 = Some (Inl (No_unpinned_buffer se))
         \<and> nextVictimBuffer se = nextVictimBuffer pool_pinned
         \<and> completePasses se = completePasses pool_pinned
         \<and> fst (StrategySyncStart 4 se True True) = uint (nextVictimBuffer pool_pinned) mod 4)"
proof -
  have "\<exists>se. StrategyGetBuffer 4 pool_pinned None 2000000000 = Some (Inl (No_unpinned_buffer se))"
    by (simp add: run_defs examples)
  then obtain se where
    se: "StrategyGetBuffer 4 pool_pinned None 2000000000 = Some (Inl (No_unpinned_buffer se))" ..
  then have "StrategyGetBuffer 4 pool_pinned None 2000000000 = Some (Inr (0, False, None, se))
      \<or> (\<exists>e. StrategyGetBuffer 4 pool_pinned None 2000000000 = Some (Inl e)
            \<and> error_state e = Some se)"
    by simp
  from StrategyGetBuffer_keeps_clock_hand [OF this, of True] se
  have raised: "\<exists>se. StrategyGetBuffer 4 pool_pinned None 2000000000
        = Some (Inl (No_unpinned_buffer se))
      \<and> nextVictimBuffer se = nextVictimBuffer pool_pinned
      \<and> completePasses se = completePasses pool_pinned
      \<and> fst (StrategySyncStart 4 se True True) = uint (nextVictimBuffer pool_pinned) mod 4"
    by auto
  have "StrategyGetBuffer 4 pool_one None 2000000000 = Some (Inr (1, False, None, pool_two))
      \<or> (\<exists>e. StrategyGetBuffer 4 pool_one None 2000000000 = Some (Inl e)
            \<and> error_state e = Some pool_two)"
    using pool_two_reached by simp
  from StrategyGetBuffer_keeps_clock_hand [OF this, of True] pool_two_reached raised
  show ?thesis by simp
qed

text \<open>
  The claim as stated fails: the second allocation of the example pool, served from the
  free list, leaves the clock hand and the start index of \<open>StrategySyncStart\<close> unchanged.
\<close>

theorem StrategyGetBuffer_clock_hand_not_incremented:
  "(case StrategyGetBuffer 4 pool_one None 2000000000 of
      Some (Inr (buf, from_ring, st, s')) \<Rightarrow>
        \<not> from_ring \<and> nextVictimBuffer s' = nextVictimBuffer pool_one
        \<and> nextVictimBuffer s' \<noteq> nextVictimBuffer pool_one + 1
        \<and> fst (StrategySyncStart 4 s' True True) = fst (StrategySyncStart 4 pool_one True True)
    | _ \<Rightarrow> False)"
  by (simp add: run_defs examples StrategySyncStart_def)

subsection \<open>Release, acquire, touch\<close>

text \<open>
  C4: a frame released and handed out again from the free list starts afresh, touched
  once, with \<open>second_last_accessed\<close> nil. In \<open>pool_two\<close> frame 0 was last accessed at
  1 s. It is released at 3 s and \<open>StrategyGetBuffer\<close> hands it out from the free list at
  4 s, recording the access of the allocation: the node is in the stack with
  \<open>last_accessed\<close> 4 s and \<open>second_last_accessed\<close> 3 s, the time of the release, because
  \<open>StrategyFreeBuffer\<close> has recorded an access instead of removing the node and the
  free-list path does not clear the timestamps of the frame it hands out (the two
  assignments are commented out there; the walk over the stack does clear them). A
  \<open>StrategyAccessBuffer\<close> at 5 s then finds the allocation as the second-last access.
\<close>

theorem release_acquire_touch_not_tier_zero:
  "(case StrategyFreeBuffer 4 pool_two 0 3000000000 of
      Some (Inr s1) \<Rightarrow>
        firstFreeBuffer s1 = 0
        \<and> (case StrategyGetBuffer 4 s1 None 4000000000 of
              Some (Inr (buf, from_ring, st, s2)) \<Rightarrow>
                buf = 0 \<and> \<not> from_ring
                \<and> stackTop s2 = Some 0
                \<and> last_accessed (elruStack s2 0) = 4000000000
                \<and> second_last_accessed (elruStack s2 0) = 3000000000
                \<and> second_last_accessed (elruStack s2 0) \<noteq> TIMESTAMP_NIL
                \<and> (case StrategyAccessBuffer 4 s2 0 False 5000000000 of
                      Some (Inr s3) \<Rightarrow>
                        stackTop s3 = Some 0
                        \<and> last_accessed (elruStack s3 0) = 5000000000
                        \<and> second_last_accessed (elruStack s3 0) = 4000000000
                        \<and> second_last_accessed (elruStack s3 0) \<noteq> TIMESTAMP_NIL
                    | _ \<Rightarrow> False)
            | _ \<Rightarrow> False)
    | _ \<Rightarrow> False)"
  by (simp add: run_defs examples)

text \<open>
  The other path of \<open>StrategyGetBuffer\<close> does what the free-list path misses: a frame
  taken from the stack has its timestamps cleared before the access of the allocation is
  recorded, and starts afresh. Here frame 0, accessed at 1 s, is the victim at 4 s.
\<close>

lemma StrategyGetBuffer_victim_starts_afresh:
  "(case StrategyGetBuffer 4 (pool_two\<lparr>firstFreeBuffer := - 1\<rparr>) None 4000000000 of
      Some (Inr (buf, from_ring, st, s2)) \<Rightarrow>
        buf = 0 \<and> \<not> from_ring
        \<and> last_accessed (elruStack s2 0) = 4000000000
        \<and> second_last_accessed (elruStack s2 0) = TIMESTAMP_NIL
    | _ \<Rightarrow> False)"
  by (simp add: run_defs examples)

subsection \<open>The allocation counter\<close>






subsection \<open>When no unpinned buffer is found\<close>


lemma same_stack_and_pins_refl [simp]: "same_stack_and_pins s s"
  by (simp add: same_stack_and_pins_def)














lemma count_alloc_wake_same [simp]:
  "same_stack_and_pins s ((wake_bgwriter s)\<lparr>numBufferAllocs := n\<rparr>)"
  by (simp add: same_stack_and_pins_def wake_bgwriter_def Let_def)

lemma count_alloc_wake_free [simp]:
  "BufferDescriptors ((wake_bgwriter s)\<lparr>numBufferAllocs := n\<rparr>) = BufferDescriptors s"
  "firstFreeBuffer ((wake_bgwriter s)\<lparr>numBufferAllocs := n\<rparr>) = firstFreeBuffer s"
  by (simp_all add: wake_bgwriter_def Let_def)

subsection \<open>Insertion into a well-formed stack\<close>

lemma follows_upd [simp]:
  "x \<notin> set xs \<Longrightarrow> follows (lnk(x := v)) p xs q = follows lnk p xs q"
  by (induction xs arbitrary: p) auto

lemma follows_append:
  "follows lnk p (xs @ ys) q \<longleftrightarrow> (\<exists>m. follows lnk p xs m \<and> follows lnk m ys q)"
  by (induction xs arbitrary: p) auto

lemma follows_snoc:
  "follows lnk p (xs @ [x]) q \<longleftrightarrow> follows lnk p xs (Some x) \<and> lnk x = q"
  by (auto simp: follows_append)

lemma follows_start: "follows lnk p xs q \<Longrightarrow> xs \<noteq> [] \<Longrightarrow> p = Some (hd xs)"
  by (cases xs) auto

lemma dll_insert_top:
  assumes "dll pv nx b t (us @ [c])" "n \<notin> set (us @ [c])"
  shows "dll (pv(c := Some n, n := None)) (nx(n := Some c)) b (Some n) (us @ [c, n])"
proof -
  from assms have 1: "follows pv b us (Some c)" "t = Some c" "follows nx (nx c) (rev us) None"
    "distinct (us @ [c])" "c \<notin> set us" "n \<notin> set us" "n \<noteq> c"
    by (auto simp: dll_def follows_snoc)
  have "follows (pv(c := Some n, n := None)) b (us @ [c, n]) None"
    using 1 by (simp add: follows_append)
  moreover have "follows (nx(n := Some c)) (Some n) (rev (us @ [c, n])) None"
    using 1 by simp
  ultimately show ?thesis using 1 by (simp add: dll_def)
qed

lemma dll_insert_sole:
  assumes "dll pv nx b t [c]" "n \<noteq> c" "nx n = None"
  shows "dll (pv(n := Some c)) (nx(c := Some n)) (Some n) t [n, c]"
  using assms by (auto simp: dll_def)

lemma dll_insert_bottom:
  assumes "dll pv nx b t (c # vs)" "n \<notin> set (c # vs)"
  shows "dll (pv(n := Some c)) (nx(n := None, c := Some n)) (Some n) t (n # c # vs)"
proof -
  from assms have 1: "b = Some c" "follows pv (pv c) vs None" "follows nx t (rev vs) (Some c)"
    "c \<notin> set vs" "n \<notin> set vs" "n \<noteq> c" "distinct vs"
    by (auto simp: dll_def follows_snoc)
  have "follows (nx(n := None, c := Some n)) t (rev (n # c # vs)) None"
    using 1 by (simp add: follows_append)
  moreover have "follows (pv(n := Some c)) (Some n) (n # c # vs) None"
    using 1 by simp
  ultimately show ?thesis using 1 by (simp add: dll_def)
qed

lemma dll_insert_mid:
  assumes "dll pv nx b t (us @ cn # c # vs)" "n \<notin> set (us @ cn # c # vs)"
  shows "dll (pv(cn := Some n, n := Some c)) (nx(n := Some cn, c := Some n)) b t
           (us @ cn # n # c # vs)"
proof -
  from assms have d: "distinct (us @ cn # c # vs)" "n \<notin> set us" "n \<notin> set vs" "n \<noteq> c" "n \<noteq> cn"
    "c \<notin> set us" "cn \<notin> set us" "c \<notin> set vs" "cn \<notin> set vs" "c \<noteq> cn"
    by (auto simp: dll_def)
  from assms(1) have p: "follows pv b us (Some cn)" "pv cn = Some c" "follows pv (pv c) vs None"
    by (auto simp: dll_def follows_append)
  from assms(1) have "follows nx t (rev vs @ c # cn # rev us) None"
    by (simp add: dll_def)
  then have x: "follows nx t (rev vs) (Some c)" "nx c = Some cn" "follows nx (nx cn) (rev us) None"
    by (auto simp: follows_append)
  have "follows (pv(cn := Some n, n := Some c)) b (us @ cn # n # c # vs) None"
    using p d by (simp add: follows_append)
  moreover have "follows (nx(n := Some cn, c := Some n)) t (rev vs @ c # n # cn # rev us) None"
    using x d by (simp add: follows_append)
  ultimately show ?thesis using d by (simp add: dll_def)
qed


lemma elru_list_dll:
  "elru_list s xs \<longleftrightarrow>
     dll (prevs s) (nexts s) (stackBottom s) (stackTop s) xs
     \<and> (\<forall>x \<in> set xs. node_id (elruStack s x) = x)"
proof -
  have "follows (nexts s) (stackTop s) (rev xs) None \<Longrightarrow>
      stackTop s = (if xs = [] then None else Some (last xs))"
    using follows_start [of "nexts s" "stackTop s" "rev xs" None]
    by (auto simp: hd_rev)
  then show ?thesis
    by (auto simp: elru_list_def stack_walk_def dll_def)
qed

lemma link_as_top_view [simp]:
  "prevs (link_as_top s n c) = (prevs s)(c := Some n, n := None)"
  "nexts (link_as_top s n c) = (nexts s)(n := Some c)"
  "stackTop (link_as_top s n c) = Some n"
  "stackBottom (link_as_top s n c) = stackBottom s"
  "node_id (elruStack (link_as_top s n c) i) = node_id (elruStack s i)"
  by (auto simp: prevs_def nexts_def link_as_top_def setters Let_def fun_eq_iff)

lemma link_below_sole_view [simp]:
  "prevs (link_below_sole s n c) = (prevs s)(n := Some c)"
  "nexts (link_below_sole s n c) = (nexts s)(c := Some n)"
  "stackTop (link_below_sole s n c) = stackTop s"
  "stackBottom (link_below_sole s n c) = Some n"
  "node_id (elruStack (link_below_sole s n c) i) = node_id (elruStack s i)"
  by (auto simp: prevs_def nexts_def link_below_sole_def setters Let_def fun_eq_iff)

lemma link_below_view [simp]:
  "prevs (link_below s n c cn) = (prevs s)(cn := Some n, n := Some c)"
  "nexts (link_below s n c cn) = (nexts s)(n := nexts s c, c := Some n)"
  "stackTop (link_below s n c cn) = stackTop s"
  "stackBottom (link_below s n c cn) = stackBottom s"
  "node_id (elruStack (link_below s n c cn) i) = node_id (elruStack s i)"
  by (auto simp: prevs_def nexts_def link_below_def setters Let_def fun_eq_iff)

lemma link_as_bottom_view [simp]:
  "prevs (link_as_bottom s n c) = (prevs s)(n := Some c)"
  "nexts (link_as_bottom s n c) = (nexts s)(n := None, c := Some n)"
  "stackTop (link_as_bottom s n c) = stackTop s"
  "stackBottom (link_as_bottom s n c) = Some n"
  "node_id (elruStack (link_as_bottom s n c) i) = node_id (elruStack s i)"
  by (auto simp: prevs_def nexts_def link_as_bottom_def setters Let_def fun_eq_iff)

lemma elru_list_neighbours:
  assumes "elru_list s (ys @ c # zs)"
  shows "prevs s c = (if zs = [] then None else Some (hd zs))"
    "nexts s c = (if ys = [] then None else Some (last ys))"
    "stackTop s = Some (last (c # zs))"
    "node_id (elruStack s c) = c"
proof -
  from assms have p: "follows (prevs s) (prevs s c) zs None"
    and x: "follows (nexts s) (nexts s c) (rev ys) None"
    by (auto simp: elru_list_dll dll_def follows_append)
  show "prevs s c = (if zs = [] then None else Some (hd zs))"
    using p follows_start [OF p] by (cases zs) auto
  show "nexts s c = (if ys = [] then None else Some (last ys))"
    using x follows_start [OF x] by (cases "ys = []") (auto simp: hd_rev)
  show "stackTop s = Some (last (c # zs))"
    using assms by (simp add: elru_list_def stack_walk_def)
  show "node_id (elruStack s c) = c"
    using assms by (simp add: elru_list_dll)
qed

lemma processStack_loop_step:
  assumes "stackTop s = Some t"
  shows "processStack_loop s n (Some c) =
     (if node_id (elruStack s c) = node_id (elruStack s t) then
        (if compareELRU (elruStack s n) (elruStack s c) > 0
         then Some (Inr (link_as_top s n c))
         else (case nexts s c of
                 None \<Rightarrow> Some (Inr (link_below_sole s n c))
               | Some cn \<Rightarrow> Some (Inr (link_below s n c cn))))
      else if compareELRU (elruStack s n) (elruStack s c) \<le> 0 then
        (case nexts s c of
           None \<Rightarrow> Some (Inr (link_as_bottom s n c))
         | Some cn \<Rightarrow> Some (Inr (link_below s n c cn)))
      else processStack_loop s n (prevs s c))"
  using assms by (subst processStack_loop.simps) (simp add: nexts_def prevs_def)


lemma elru_list_link_as_top:
  assumes "elru_list s (us @ [c])" "n \<notin> set (us @ [c])" "node_id (elruStack s n) = n"
  shows "elru_list (link_as_top s n c) (us @ [c, n])"
  using assms dll_insert_top [of "prevs s" "nexts s" "stackBottom s" "stackTop s" us c n]
  by (simp add: elru_list_dll)

lemma elru_list_link_below_sole:
  assumes "elru_list s [c]" "n \<noteq> c" "nexts s n = None" "node_id (elruStack s n) = n"
  shows "elru_list (link_below_sole s n c) [n, c]"
  using assms dll_insert_sole [of "prevs s" "nexts s" "stackBottom s" "stackTop s" c n]
  by (simp add: elru_list_dll)

lemma elru_list_link_as_bottom:
  assumes "elru_list s (c # vs)" "n \<notin> set (c # vs)" "node_id (elruStack s n) = n"
  shows "elru_list (link_as_bottom s n c) (n # c # vs)"
  using assms dll_insert_bottom [of "prevs s" "nexts s" "stackBottom s" "stackTop s" c vs n]
  by (simp add: elru_list_dll)

lemma elru_list_link_below:
  assumes "elru_list s (us @ cn # c # vs)" "n \<notin> set (us @ cn # c # vs)"
    "node_id (elruStack s n) = n"
  shows "elru_list (link_below s n c cn) (us @ cn # n # c # vs)"
proof -
  have "nexts s c = Some cn"
    using elru_list_neighbours(2) [of s "us @ [cn]" c vs] assms(1) by simp
  then show ?thesis
    using assms dll_insert_mid [of "prevs s" "nexts s" "stackBottom s" "stackTop s" us cn c vs n]
    by (simp add: elru_list_dll)
qed

lemma elru_list_stack_walk: "elru_list s xs \<Longrightarrow> stack_walk s xs"
  by (simp add: elru_list_def)

lemma stack_walk_link_below_sole:
  assumes "elru_list s [c]" "n \<noteq> c" "node_id (elruStack s n) = n"
  shows "stack_walk (link_below_sole s n c) [n, c]"
  using assms by (auto simp: elru_list_def stack_walk_def)

text \<open>
  The loop on a well-formed stack: it ends, and the node stands directly below the first
  node, from the bottom, against which the comparator is not positive. Only in one case
  is the result not a well-formed doubly linked list: the stack has one node, the new node
  goes below it, and the code leaves the new node's \<^verbatim>\<open>next\<close> as it was.
\<close>

lemma processStack_loop_inserts:
  assumes "elru_list s (ys @ zs)" "zs \<noteq> []" "n \<notin> set (ys @ zs)"
    "node_id (elruStack s n) = n"
    "\<forall>y \<in> set ys. 0 < compareELRU (elruStack s n) (elruStack s y)"
  shows "\<exists>s'. processStack_loop s n (Some (hd zs)) = Some (Inr s')
    \<and> stack_walk s'
         (ys @ takeWhile (\<lambda>c. 0 < compareELRU (elruStack s n) (elruStack s c)) zs
             @ n # dropWhile (\<lambda>c. 0 < compareELRU (elruStack s n) (elruStack s c)) zs)
    \<and> (nexts s n = None \<or> ys \<noteq> [] \<or> length zs \<noteq> 1
          \<or> 0 < compareELRU (elruStack s n) (elruStack s (hd zs)) \<longrightarrow>
        elru_list s'
         (ys @ takeWhile (\<lambda>c. 0 < compareELRU (elruStack s n) (elruStack s c)) zs
             @ n # dropWhile (\<lambda>c. 0 < compareELRU (elruStack s n) (elruStack s c)) zs))"
  using assms
proof (induction zs arbitrary: ys)
  case Nil
  then show ?case by simp
next
  case (Cons c zs)
  let ?above = "\<lambda>c. 0 < compareELRU (elruStack s n) (elruStack s c)"
  note nb = elru_list_neighbours [OF Cons.prems(1)]
  have d: "distinct (ys @ c # zs)"
    using Cons.prems(1) by (simp add: elru_list_def stack_walk_def)
  obtain t where t: "stackTop s = Some t" "t = last (c # zs)" using nb(3) by simp
  have "t \<in> set (ys @ c # zs)" using t(2) last_in_set [of "c # zs"] by simp
  then have idt: "node_id (elruStack s t) = t"
    using Cons.prems(1) by (auto simp: elru_list_dll)
  have top_iff: "node_id (elruStack s c) = node_id (elruStack s t) \<longleftrightarrow> zs = []"
    using d t(2) nb(4) idt by auto
  note step = processStack_loop_step [OF t(1), of n c]
  show ?case
  proof (cases "?above c")
    case above: True
    show ?thesis
    proof (cases "zs = []")
      case True
      have "elru_list (link_as_top s n c) ((ys @ [c]) @ [n])"
        using elru_list_link_as_top [of s ys c n] Cons.prems True by simp
      then show ?thesis
        using step top_iff True above by (simp add: elru_list_stack_walk)
    next
      case False
      have "\<exists>s'. processStack_loop s n (Some (hd zs)) = Some (Inr s')
          \<and> stack_walk s' ((ys @ [c]) @ takeWhile ?above zs @ n # dropWhile ?above zs)
          \<and> (nexts s n = None \<or> ys @ [c] \<noteq> [] \<or> length zs \<noteq> 1 \<or> ?above (hd zs) \<longrightarrow>
              elru_list s' ((ys @ [c]) @ takeWhile ?above zs @ n # dropWhile ?above zs))"
        using Cons.prems above False by (intro Cons.IH) simp_all
      moreover have "processStack_loop s n (Some c) = processStack_loop s n (Some (hd zs))"
        using step top_iff False above nb(1) by simp
      ultimately show ?thesis using above by simp
    qed
  next
    case below: False
    show ?thesis
    proof (cases "ys = []")
      case True
      show ?thesis
      proof (cases "zs = []")
        case True
        have w: "stack_walk (link_below_sole s n c) [n, c]"
          using stack_walk_link_below_sole [of s c n] Cons.prems \<open>ys = []\<close> True by simp
        have "nexts s n = None \<Longrightarrow> elru_list (link_below_sole s n c) [n, c]"
          using elru_list_link_below_sole [of s c n] Cons.prems \<open>ys = []\<close> True by simp
        then show ?thesis using w step top_iff True \<open>ys = []\<close> below nb(2) by auto
      next
        case False
        have "elru_list (link_as_bottom s n c) (n # c # zs)"
          using elru_list_link_as_bottom [of s c zs n] Cons.prems \<open>ys = []\<close> by simp
        then show ?thesis
          using step top_iff False \<open>ys = []\<close> below nb(2) by (simp add: elru_list_stack_walk)
      qed
    next
      case False
      have "butlast ys @ last ys # c # zs = (butlast ys @ [last ys]) @ c # zs" by simp
      also have "\<dots> = ys @ c # zs" using False by simp
      finally have e: "butlast ys @ last ys # c # zs = ys @ c # zs" .
      have "butlast ys @ last ys # n # c # zs = (butlast ys @ [last ys]) @ n # c # zs" by simp
      also have "\<dots> = ys @ n # c # zs" using False by simp
      finally have e': "butlast ys @ last ys # n # c # zs = ys @ n # c # zs" .
      have "elru_list (link_below s n c (last ys)) (butlast ys @ last ys # n # c # zs)"
        using Cons.prems(1,3,4) unfolding e [symmetric]
        by (rule elru_list_link_below)
      then have "elru_list (link_below s n c (last ys)) (ys @ n # c # zs)"
        unfolding e' .
      then show ?thesis using step False below nb(2) by (auto simp: elru_list_stack_walk)
    qed
  qed
qed

lemma compareELRU_equal_keys:
  assumes "spec_key a = spec_key b" "\<not> isRemovedNode b"
  shows "compareELRU a b = 0"
  using assms
  by (auto simp: spec_key_def compareELRU_def isRemovedNode_def long_long_to_int_def
      split: if_splits)

lemma compareELRU_timestamps:
  assumes "last_accessed a' = last_accessed a" "second_last_accessed a' = second_last_accessed a"
    "last_accessed b' = last_accessed b" "second_last_accessed b' = second_last_accessed b"
  shows "compareELRU a' b' = compareELRU a b"
  using assms by (simp add: compareELRU_def isRemovedNode_def)

lemma processStackBottomToTop_inserts:
  assumes "elru_list s xs" "n \<notin> set xs" "node_id (elruStack s n) = n"
  shows "\<exists>s'. processStackBottomToTop s n = Some (Inr s')
    \<and> stack_walk s'
         (takeWhile (\<lambda>c. 0 < compareELRU (elruStack s n) (elruStack s c)) xs
             @ n # dropWhile (\<lambda>c. 0 < compareELRU (elruStack s n) (elruStack s c)) xs)
    \<and> (nexts s n = None \<or> length xs \<noteq> 1
          \<or> 0 < compareELRU (elruStack s n) (elruStack s (hd xs)) \<longrightarrow>
        elru_list s'
         (takeWhile (\<lambda>c. 0 < compareELRU (elruStack s n) (elruStack s c)) xs
             @ n # dropWhile (\<lambda>c. 0 < compareELRU (elruStack s n) (elruStack s c)) xs))"
proof (cases xs)
  case Nil
  then have b: "stackBottom s = None" using assms(1) by (simp add: elru_list_def stack_walk_def)
  have "elru_list (set_prev (set_next (s\<lparr>stackBottom := Some n, stackTop := Some n\<rparr>) n None) n None) [n]"
    using assms(3)
    by (simp add: elru_list_def stack_walk_def prevs_def nexts_def setters)
  then show ?thesis
    using b Nil by (simp add: processStackBottomToTop_def Let_def elru_list_stack_walk)
next
  case (Cons x xs')
  then have b: "stackBottom s = Some (hd xs)"
    using assms(1) by (simp add: elru_list_def stack_walk_def)
  from processStack_loop_inserts [of s "[]" xs n] assms Cons b
  show ?thesis by (simp add: processStackBottomToTop_def)
qed

lemma record_access_view [simp]:
  "prevs (record_access s b now) = prevs s"
  "nexts (record_access s b now) = nexts s"
  "stackTop (record_access s b now) = stackTop s"
  "stackBottom (record_access s b now) = stackBottom s"
  "node_id (elruStack (record_access s b now) i) = node_id (elruStack s i)"
  by (auto simp: prevs_def nexts_def record_access_def setters fun_eq_iff)

lemma record_access_elru_list [simp]:
  "elru_list (record_access s b now) xs = elru_list s xs"
  by (simp add: elru_list_dll)

lemma record_access_node:
  "elruStack (record_access s b now) i =
     (if i = b then (elruStack s b)\<lparr>last_accessed := now,
                      second_last_accessed := last_accessed (elruStack s b)\<rparr>
      else elruStack s i)"
  by (simp add: record_access_def setters)

lemma StrategyAccessBuffer_not_resident:
  assumes "elru_list s xs" "n \<notin> set xs" "0 \<le> n" "n < NBuffers"
    "prev (elruStack s n) = None" "next (elruStack s n) = None"
  shows "StrategyAccessBuffer NBuffers s n d now = processStackBottomToTop (record_access s n now) n"
proof -
  define s2 where "s2 = record_access s n now"
  have top: "case stackTop s of None \<Rightarrow> True | Some t \<Rightarrow> node_id (elruStack s t) \<noteq> n"
  proof (cases xs rule: rev_cases)
    case Nil
    then show ?thesis using assms(1) by (simp add: elru_list_def stack_walk_def)
  next
    case (snoc us t)
    then show ?thesis using assms(1,2) by (auto simp: elru_list_def stack_walk_def)
  qed
  have "prevs s2 n = None" "nexts s2 n = None"
    using assms(5,6) by (simp_all add: s2_def) (simp_all add: prevs_def nexts_def)
  then have cond: "prev (elruStack s2 n) = None \<and> next (elruStack s2 n) = None
      \<and> (case stackTop s2 of None \<Rightarrow> True | Some t \<Rightarrow> node_id (elruStack s2 t) \<noteq> n)"
    using top by (simp add: prevs_def nexts_def) (simp add: s2_def split: option.splits)
  show ?thesis
    using assms(3,4) cond
    unfolding StrategyAccessBuffer_def Let_def record_access_def [symmetric] s2_def [symmetric]
    by simp
qed

subsection \<open>Unlinking a resident node\<close>

lemma dll_remove_bottom:
  assumes "dll pv nx b t (n # c # vs)"
  shows "dll pv (nx(c := None)) (pv n) t (c # vs)"
proof -
  from assms have 1: "pv n = Some c" "follows pv (pv c) vs None"
    "follows nx t (rev vs) (Some c)" "c \<notin> set vs" "distinct vs"
    by (auto simp: dll_def follows_append)
  have "follows (nx(c := None)) t (rev (c # vs)) None"
    using 1 by (simp add: follows_snoc)
  then show ?thesis using 1 by (simp add: dll_def)
qed

lemma dll_remove_top:
  assumes "dll pv nx b t (us @ [c, n])"
  shows "dll (pv(c := None)) nx b (nx n) (us @ [c])"
proof -
  from assms have 1: "follows pv b us (Some c)" "nx n = Some c"
    "follows nx (nx c) (rev us) None" "c \<notin> set us" "distinct us"
    by (auto simp: dll_def follows_append)
  have "follows (pv(c := None)) b (us @ [c]) None"
    using 1 by (simp add: follows_snoc)
  then show ?thesis using 1 by (simp add: dll_def)
qed

lemma dll_remove_mid:
  assumes "dll pv nx b t (us @ a # n # c # vs)"
  shows "dll (pv(a := pv n)) (nx(c := nx n)) b t (us @ a # c # vs)"
proof -
  from assms have d: "distinct (us @ a # n # c # vs)" by (simp add: dll_def)
  from assms have p: "follows pv b us (Some a)" "pv n = Some c" "follows pv (pv c) vs None"
    by (auto simp: dll_def follows_append)
  from assms have "follows nx t (rev vs @ c # n # a # rev us) None"
    by (simp add: dll_def)
  then have x: "follows nx t (rev vs) (Some c)" "nx n = Some a" "follows nx (nx a) (rev us) None"
    by (auto simp: follows_append)
  have "follows (pv(a := pv n)) b (us @ a # c # vs) None"
    using p d by (simp add: follows_append)
  moreover have "follows (nx(c := nx n)) t (rev vs @ c # a # rev us) None"
    using x d by (simp add: follows_append)
  ultimately show ?thesis using d by (simp add: dll_def)
qed

lemma walk_prev_terminates:
  "follows (prevs s) p xs None \<Longrightarrow> walk_prev s p = Some ()"
proof (induction xs arbitrary: p)
  case Nil
  then show ?case by (subst walk_prev.simps) simp
next
  case (Cons x xs)
  then show ?case by (subst walk_prev.simps) (simp add: prevs_def)
qed

lemma setters_view [simp]:
  "prevs (set_prev s p v) = (prevs s)(p := v)"
  "nexts (set_prev s p v) = nexts s"
  "prevs (set_next s p v) = prevs s"
  "nexts (set_next s p v) = (nexts s)(p := v)"
  "stackTop (set_prev s p v) = stackTop s"
  "stackBottom (set_prev s p v) = stackBottom s"
  "stackTop (set_next s p v) = stackTop s"
  "stackBottom (set_next s p v) = stackBottom s"
  "node_id (elruStack (set_prev s p v) i) = node_id (elruStack s i)"
  "node_id (elruStack (set_next s p v) i) = node_id (elruStack s i)"
  "prevs (s\<lparr>stackTop := t\<rparr>) = prevs s"
  "nexts (s\<lparr>stackTop := t\<rparr>) = nexts s"
  "prevs (s\<lparr>stackBottom := t\<rparr>) = prevs s"
  "nexts (s\<lparr>stackBottom := t\<rparr>) = nexts s"
  by (auto simp: prevs_def nexts_def setters fun_eq_iff)

lemma unlink_bottom:
  assumes "elru_list s (n # c # vs)"
  defines "u \<equiv> set_next (s\<lparr>stackBottom := prev (elruStack s n)\<rparr>) c None"
  shows "elru_list u (c # vs)" "nexts u n = None" "prev (elruStack s n) = Some c"
proof -
  have d: "dll (prevs s) (nexts s) (stackBottom s) (stackTop s) (n # c # vs)"
    using assms(1) by (simp add: elru_list_dll)
  have nc: "n \<noteq> c" using d by (auto simp: dll_def)
  show pn: "prev (elruStack s n) = Some c"
    using elru_list_neighbours(1) [of s "[]" n "c # vs"] assms(1) by (simp add: prevs_def)
  show "elru_list u (c # vs)"
    using dll_remove_bottom [OF d] assms(1) pn
    by (simp add: elru_list_dll u_def) (simp add: prevs_def)
  show "nexts u n = None"
    using elru_list_neighbours(2) [of s "[]" n "c # vs"] assms(1) nc by (simp add: u_def)
qed

lemma unlink_top:
  assumes "elru_list s (us @ [c, n])"
  defines "u \<equiv> set_prev (s\<lparr>stackTop := next (elruStack s n)\<rparr>) c None"
  shows "elru_list u (us @ [c])" "next (elruStack s n) = Some c"
proof -
  have d: "dll (prevs s) (nexts s) (stackBottom s) (stackTop s) (us @ [c, n])"
    using assms(1) by (simp add: elru_list_dll)
  show nn: "next (elruStack s n) = Some c"
    using elru_list_neighbours(2) [of s "us @ [c]" n "[]"] assms(1) by (simp add: nexts_def)
  show "elru_list u (us @ [c])"
    using dll_remove_top [OF d] assms(1) nn
    by (simp add: elru_list_dll u_def) (simp add: nexts_def)
qed

lemma unlink_middle_list:
  assumes "elru_list s (us @ a # n # c # vs)"
  shows "elru_list (unlink_middle s n) (us @ a # c # vs)"
proof -
  have d: "dll (prevs s) (nexts s) (stackBottom s) (stackTop s) (us @ a # n # c # vs)"
    using assms(1) by (simp add: elru_list_dll)
  have nb: "nexts s n = Some a" "prevs s n = Some c"
    using elru_list_neighbours(1,2) [of s "us @ [a]" n "c # vs"] assms(1) by simp_all
  have na: "n \<noteq> a" using d by (auto simp: dll_def)
  have v: "prevs (unlink_middle s n) = (prevs s)(a := prevs s n)"
    "nexts (unlink_middle s n) = (nexts s)(c := nexts s n)"
    "stackTop (unlink_middle s n) = stackTop s"
    "stackBottom (unlink_middle s n) = stackBottom s"
    "node_id (elruStack (unlink_middle s n) i) = node_id (elruStack s i)" for i
    using nb na
    by (simp_all add: unlink_middle_def Let_def prevs_def [symmetric] nexts_def [symmetric])
  show ?thesis
    using dll_remove_mid [OF d] assms(1) by (simp add: elru_list_dll v)
qed


lemma links_only_unlink_middle' [simp]: "links_only s (unlink_middle s' c) = links_only s s'"
  by (simp add: unlink_middle_def Let_def split: option.splits)

lemma StrategyAccessBuffer_bottom:
  assumes "elru_list s (n # c # vs)" "0 \<le> n" "n < NBuffers"
  shows "\<exists>u. StrategyAccessBuffer NBuffers s n d now = processStackBottomToTop u n
    \<and> elru_list u (c # vs) \<and> links_only (record_access s n now) u \<and> nexts u n = None"
proof -
  define s2 where "s2 = record_access s n now"
  define u where "u = set_next (s2\<lparr>stackBottom := prev (elruStack s2 n)\<rparr>) c None"
  have e2: "elru_list s2 (n # c # vs)" using assms(1) by (simp add: s2_def)
  note ub = unlink_bottom [OF e2, folded u_def]
  have b: "stackBottom s2 = Some n" "node_id (elruStack s2 n) = n"
    using e2 by (simp_all add: elru_list_def stack_walk_def)
  have "StrategyAccessBuffer NBuffers s n d now = processStackBottomToTop u n"
    using assms(2,3) ub(3) b
    unfolding StrategyAccessBuffer_def Let_def record_access_def [symmetric] s2_def [symmetric]
    by (simp add: u_def)
  moreover have "links_only s2 u" by (simp add: u_def)
  ultimately show ?thesis using ub(1,2) unfolding s2_def by blast
qed

lemma StrategyAccessBuffer_top:
  assumes "elru_list s (us @ [c, n])" "0 \<le> n" "n < NBuffers"
  shows "\<exists>u. StrategyAccessBuffer NBuffers s n d now = processStackBottomToTop u n
    \<and> elru_list u (us @ [c]) \<and> links_only (record_access s n now) u"
proof -
  define s2 where "s2 = record_access s n now"
  define u where "u = set_prev (s2\<lparr>stackTop := next (elruStack s2 n)\<rparr>) c None"
  have e2: "elru_list s2 (us @ [c, n])" using assms(1) by (simp add: s2_def)
  note ut = unlink_top [OF e2, folded u_def]
  have d: "distinct (us @ [c, n])" using e2 by (simp add: elru_list_def stack_walk_def)
  have ids: "\<forall>x \<in> set (us @ [c, n]). node_id (elruStack s2 x) = x"
    using e2 by (simp add: elru_list_def stack_walk_def)
  have "stackBottom s2 = Some (hd (us @ [c, n]))"
    using e2 by (cases us) (simp_all add: elru_list_def stack_walk_def)
  moreover have "hd (us @ [c, n]) \<noteq> n" "hd (us @ [c, n]) \<in> set (us @ [c, n])"
    using d by (cases us; auto)+
  ultimately obtain b where b: "stackBottom s2 = Some b" "node_id (elruStack s2 b) \<noteq> n"
    using ids by metis
  have t: "stackTop s2 = Some n" "node_id (elruStack s2 n) = n"
    using e2 by (simp_all add: elru_list_def stack_walk_def)
  have "StrategyAccessBuffer NBuffers s n d now = processStackBottomToTop u n"
    using assms(2,3) ut(2) b t
    unfolding StrategyAccessBuffer_def Let_def record_access_def [symmetric] s2_def [symmetric]
    by (simp add: u_def)
  moreover have "links_only s2 u" by (simp add: u_def)
  ultimately show ?thesis using ut(1) unfolding s2_def by blast
qed

lemma StrategyAccessBuffer_middle:
  assumes "elru_list s (us @ a # n # c # vs)" "0 \<le> n" "n < NBuffers"
  shows "\<exists>u. StrategyAccessBuffer NBuffers s n d now = processStackBottomToTop u n
    \<and> elru_list u (us @ a # c # vs) \<and> links_only (record_access s n now) u"
proof -
  define s2 where "s2 = record_access s n now"
  define xs where "xs = us @ a # n # c # vs"
  have e2: "elru_list s2 xs" using assms(1) by (simp add: s2_def xs_def)
  have d: "distinct xs" using e2 by (simp add: elru_list_def stack_walk_def)
  have ids: "\<forall>x \<in> set xs. node_id (elruStack s2 x) = x"
    using e2 by (simp add: elru_list_def stack_walk_def)
  have nbr: "prevs s2 n = Some c" "nexts s2 n = Some a"
    using elru_list_neighbours(1,2) [of s2 "us @ [a]" n "c # vs"] e2 by (simp_all add: xs_def)
  have "stackBottom s2 = Some (hd xs)"
    using e2 by (cases us) (simp_all add: elru_list_def stack_walk_def xs_def)
  moreover have "hd xs \<noteq> n" "hd xs \<in> set xs"
    using d by (cases us; auto simp: xs_def)+
  ultimately obtain b where b: "stackBottom s2 = Some b" "node_id (elruStack s2 b) \<noteq> n"
    using ids by metis
  have "stackTop s2 = Some (last xs)"
    using e2 by (simp add: elru_list_def stack_walk_def xs_def)
  moreover have "last xs \<noteq> n" "last xs \<in> set xs"
    using d by (auto simp: xs_def)
  ultimately obtain t where t: "stackTop s2 = Some t" "node_id (elruStack s2 t) \<noteq> n"
    using ids by metis
  have "follows (prevs s2) (Some n) (n # c # vs) None"
    using e2 by (auto simp: elru_list_def stack_walk_def xs_def follows_append)
  then have w: "walk_prev s2 (Some n) = Some ()" by (rule walk_prev_terminates)
  have "StrategyAccessBuffer NBuffers s n d now = processStackBottomToTop (unlink_middle s2 n) n"
    using assms(2,3) nbr b t w
    unfolding StrategyAccessBuffer_def Let_def record_access_def [symmetric] s2_def [symmetric]
    by (simp add: prevs_def)
  moreover have "links_only s2 (unlink_middle s2 n)" by simp
  moreover have "elru_list (unlink_middle s2 n) (us @ a # c # vs)"
    using unlink_middle_list [of s2 us a n c vs] e2 by (simp add: xs_def)
  ultimately show ?thesis unfolding s2_def by blast
qed

lemma StrategyAccessBuffer_unlinks:
  assumes "elru_list s xs" "0 \<le> n" "n < NBuffers"
    and "n \<in> set xs \<Longrightarrow> xs \<noteq> [n]"
    and "n \<notin> set xs \<Longrightarrow> prev (elruStack s n) = None \<and> next (elruStack s n) = None"
  shows "\<exists>u. StrategyAccessBuffer NBuffers s n d now = processStackBottomToTop u n
    \<and> elru_list u (remove1 n xs) \<and> links_only (record_access s n now) u
    \<and> ((\<forall>c. xs \<noteq> [c, n]) \<longrightarrow> nexts u n = None \<or> length (remove1 n xs) \<noteq> 1)"
proof (cases "n \<in> set xs")
  case False
  have "nexts (record_access s n now) n = None"
    using assms(5) False by (simp add: nexts_def)
  then show ?thesis
    using StrategyAccessBuffer_not_resident [of s xs n NBuffers d now] assms False
    by (intro exI [of _ "record_access s n now"]) (simp add: remove1_idem)
next
  case True
  have d: "distinct xs" using assms(1) by (simp add: elru_list_def stack_walk_def)
  from True obtain us vs where xs: "xs = us @ n # vs" by (auto dest: split_list)
  have nin: "n \<notin> set us" "n \<notin> set vs" using d xs by auto
  show ?thesis
  proof (cases us rule: rev_cases)
    case Nil
    with assms(4) True xs obtain c vs' where vs: "vs = c # vs'" by (cases vs) auto
    from StrategyAccessBuffer_bottom [of s n c vs' NBuffers d now] assms(1-3) xs Nil vs
    show ?thesis by auto
  next
    case (snoc us' a)
    show ?thesis
    proof (cases vs)
      case Nil
      have r: "remove1 n xs = us' @ [a]" using xs snoc Nil nin by (simp add: remove1_append)
      from StrategyAccessBuffer_top [of s us' a n NBuffers d now] assms(1-3) xs snoc Nil
      obtain u where u: "StrategyAccessBuffer NBuffers s n d now = processStackBottomToTop u n"
        "elru_list u (us' @ [a])" "links_only (record_access s n now) u"
        by auto
      have "(\<forall>c. xs \<noteq> [c, n]) \<Longrightarrow> us' \<noteq> []" using xs snoc Nil by auto
      then show ?thesis using u r by (intro exI [of _ u]) auto
    next
      case (Cons c vs')
      have r: "remove1 n xs = us' @ a # c # vs'"
        using xs snoc Cons nin by (simp add: remove1_append)
      from StrategyAccessBuffer_middle [of s us' a n c vs' NBuffers d now] assms(1-3) xs snoc Cons
      show ?thesis using r by auto
    qed
  qed
qed

subsection \<open>Where an access places the node\<close>

lemma StrategyAccessBuffer_places_node:
  assumes "elru_list s xs" "0 \<le> n" "n < NBuffers" "node_id (elruStack s n) = n"
    and "n \<in> set xs \<Longrightarrow> xs \<noteq> [n]"
    and "n \<notin> set xs \<Longrightarrow> prev (elruStack s n) = None \<and> next (elruStack s n) = None"
  shows "\<exists>s' ys zs.
     StrategyAccessBuffer NBuffers s n d now = Some (Inr s')
     \<and> remove1 n xs = ys @ zs \<and> stack_walk s' (ys @ n # zs)
     \<and> ((\<forall>c. xs \<noteq> [c, n]) \<or> zs = [] \<longrightarrow> elru_list s' (ys @ n # zs))
     \<and> (\<forall>c \<in> set ys. 0 < compareELRU (elruStack s' n) (elruStack s' c))
     \<and> (zs \<noteq> [] \<longrightarrow> compareELRU (elruStack s' n) (elruStack s' (hd zs)) \<le> 0)
     \<and> (\<forall>c \<in> set (remove1 n xs). \<not> isRemovedNode (elruStack s' c)
            \<and> spec_key (elruStack s' c) = spec_key (elruStack s' n) \<longrightarrow> c \<in> set zs)"
proof -
  define s2 where "s2 = record_access s n now"
  define xs' where "xs' = remove1 n xs"
  from StrategyAccessBuffer_unlinks [OF assms(1-3,5,6), of d now] obtain u where
    u: "StrategyAccessBuffer NBuffers s n d now = processStackBottomToTop u n"
      "elru_list u xs'" "links_only s2 u"
      "(\<forall>c. xs \<noteq> [c, n]) \<longrightarrow> nexts u n = None \<or> length xs' \<noteq> 1"
    unfolding s2_def xs'_def by blast
  let ?above = "\<lambda>c. 0 < compareELRU (elruStack u n) (elruStack u c)"
  define ys where "ys = takeWhile ?above xs'"
  define zs where "zs = dropWhile ?above xs'"
  have dist: "distinct xs" using assms(1) by (simp add: elru_list_def stack_walk_def)
  have nin: "n \<notin> set xs'" using dist by (simp add: xs'_def)
  have idn: "node_id (elruStack u n) = n"
    using u(3) assms(4) by (simp add: links_only_def s2_def)
  from processStackBottomToTop_inserts [OF u(2) nin idn] obtain s' where
    s': "processStackBottomToTop u n = Some (Inr s')" "stack_walk s' (ys @ n # zs)"
      "nexts u n = None \<or> length xs' \<noteq> 1 \<or> ?above (hd xs') \<longrightarrow> elru_list s' (ys @ n # zs)"
    unfolding ys_def zs_def by blast
  have run: "StrategyAccessBuffer NBuffers s n d now = Some (Inr s')"
    using u(1) s'(1) by simp
  have l: "links_only u s'"
    using processStackBottomToTop_links_only [OF s'(1)] by simp
  have cmp: "compareELRU (elruStack s' a) (elruStack s' b) = compareELRU (elruStack u a) (elruStack u b)"
    for a b
    using links_only_timestamps [OF l] by (intro compareELRU_timestamps) simp_all
  have xs: "xs' = ys @ zs" by (simp add: ys_def zs_def)
  have ab: "\<forall>c \<in> set ys. ?above c"
    unfolding ys_def by (auto dest: set_takeWhileD)
  have hd: "zs \<noteq> [] \<longrightarrow> \<not> ?above (hd zs)"
    unfolding zs_def using hd_dropWhile [of ?above xs'] by auto
  have "zs = [] \<Longrightarrow> length xs' \<noteq> 1 \<or> ?above (hd xs')"
    using xs ab by (cases ys) auto
  then have 0: "(\<forall>c. xs \<noteq> [c, n]) \<or> zs = [] \<longrightarrow> elru_list s' (ys @ n # zs)"
    using s'(3) u(4) by blast
  have eq: "c \<in> set zs"
    if "c \<in> set xs'" "\<not> isRemovedNode (elruStack s' c)"
      "spec_key (elruStack s' c) = spec_key (elruStack s' n)" for c
  proof -
    have "compareELRU (elruStack s' n) (elruStack s' c) = 0"
      using that(2,3) by (intro compareELRU_equal_keys) simp_all
    then have "\<not> ?above c" by (simp add: cmp)
    with ab that(1) xs show ?thesis by auto
  qed
  have 1: "\<forall>c \<in> set ys. 0 < compareELRU (elruStack s' n) (elruStack s' c)"
    using ab by (simp add: cmp)
  have 2: "zs \<noteq> [] \<longrightarrow> compareELRU (elruStack s' n) (elruStack s' (hd zs)) \<le> 0"
    using hd by (simp add: cmp not_less)
  have 3: "\<forall>c \<in> set xs'. \<not> isRemovedNode (elruStack s' c)
            \<and> spec_key (elruStack s' c) = spec_key (elruStack s' n) \<longrightarrow> c \<in> set zs"
    using eq by blast
  show ?thesis
    using run xs s'(2) 0 1 2 3 unfolding xs'_def by blast
qed

text \<open>
  C9, as the code has it: \<open>StrategyAccessBuffer\<close> on a well-formed stack \<open>xs\<close>, for a
  frame that is not in the stack or for a resident frame of a stack of at least two nodes
  (which is unlinked first), places the node directly below the lowest other node \<open>c\<close>
  with \<open>compareELRU(node, c) \<le> 0\<close>, on top when there is none: read from the bottom
  the stack becomes \<open>ys @ n # zs\<close>, where \<open>ys @ zs\<close> are the other nodes in their old
  order, the comparator is positive against every node of \<open>ys\<close>, and every other node
  whose key equals the node's new key is in \<open>zs\<close>, above it. The result is a well-formed
  doubly linked list, but for a top node of a two-node stack that goes below the other
  node.
\<close>

theorem touch_inserts_below_equal_keys:
  assumes "elru_list s xs" "0 \<le> n" "n < NBuffers" "node_id (elruStack s n) = n"
    and "n \<in> set xs \<Longrightarrow> xs \<noteq> [n]"
    and "n \<notin> set xs \<Longrightarrow> prev (elruStack s n) = None \<and> next (elruStack s n) = None"
  shows "\<exists>s' ys zs.
     StrategyAccessBuffer NBuffers s n d now = Some (Inr s')
     \<and> remove1 n xs = ys @ zs \<and> stack_walk s' (ys @ n # zs)
     \<and> ((\<forall>c. xs \<noteq> [c, n]) \<or> zs = [] \<longrightarrow> elru_list s' (ys @ n # zs))
     \<and> (\<forall>c \<in> set ys. 0 < compareELRU (elruStack s' n) (elruStack s' c))
     \<and> (zs \<noteq> [] \<longrightarrow> compareELRU (elruStack s' n) (elruStack s' (hd zs)) \<le> 0)
     \<and> (\<forall>c \<in> set (remove1 n xs). \<not> isRemovedNode (elruStack s' c)
            \<and> spec_key (elruStack s' c) = spec_key (elruStack s' n) \<longrightarrow> c \<in> set zs)"
  using assms by (rule StrategyAccessBuffer_places_node)

theorem touch_inserts_below_equal_keys_witness:
  "elru_list pool_one [0] \<and> elru_list pool_two [0, 1]
   \<and> (\<exists>s' ys zs.
     StrategyAccessBuffer 4 pool_one 1 False 1000000000 = Some (Inr s')
     \<and> [0] = ys @ zs \<and> elru_list s' (ys @ 1 # zs)
     \<and> (\<forall>c \<in> set ys. 0 < compareELRU (elruStack s' 1) (elruStack s' c))
     \<and> (zs \<noteq> [] \<longrightarrow> compareELRU (elruStack s' 1) (elruStack s' (hd zs)) \<le> 0))
   \<and> (\<exists>s' ys zs.
     StrategyAccessBuffer 4 pool_two 0 False 3000000000 = Some (Inr s')
     \<and> [1] = ys @ zs \<and> elru_list s' (ys @ 0 # zs)
     \<and> (\<forall>c \<in> set ys. 0 < compareELRU (elruStack s' 0) (elruStack s' c))
     \<and> (zs \<noteq> [] \<longrightarrow> compareELRU (elruStack s' 0) (elruStack s' (hd zs)) \<le> 0))"
proof -
  have h1: "elru_list pool_one [0]"
    by (simp add: elru_list_def stack_walk_def prevs_def nexts_def examples)
  have n1: "(0::int) \<le> 1" "(1::int) < 4" "node_id (elruStack pool_one 1) = 1"
    "1 \<in> set [0::int] \<Longrightarrow> [0] \<noteq> [1::int]"
    "1 \<notin> set [0::int] \<Longrightarrow>
       prev (elruStack pool_one 1) = None \<and> next (elruStack pool_one 1) = None"
    by (simp_all add: examples)
  have h2: "elru_list pool_two [0, 1]"
    by (simp add: elru_list_def stack_walk_def prevs_def nexts_def examples)
  have n2: "(0::int) \<le> 0" "(0::int) < 4" "node_id (elruStack pool_two 0) = 0"
    "0 \<in> set [0, 1::int] \<Longrightarrow> [0, 1] \<noteq> [0::int]"
    "0 \<notin> set [0, 1::int] \<Longrightarrow>
       prev (elruStack pool_two 0) = None \<and> next (elruStack pool_two 0) = None"
    by (simp_all add: examples)
  from touch_inserts_below_equal_keys [OF h1 n1, of False 1000000000]
  obtain s' ys zs where a:
    "StrategyAccessBuffer 4 pool_one 1 False 1000000000 = Some (Inr s')"
    "[0] = ys @ zs" "elru_list s' (ys @ 1 # zs)"
    "\<forall>c \<in> set ys. 0 < compareELRU (elruStack s' 1) (elruStack s' c)"
    "zs \<noteq> [] \<longrightarrow> compareELRU (elruStack s' 1) (elruStack s' (hd zs)) \<le> 0"
    by auto
  from touch_inserts_below_equal_keys [OF h2 n2, of False 3000000000]
  obtain t' ys' zs' where b:
    "StrategyAccessBuffer 4 pool_two 0 False 3000000000 = Some (Inr t')"
    "[1] = ys' @ zs'" "elru_list t' (ys' @ 0 # zs')"
    "\<forall>c \<in> set ys'. 0 < compareELRU (elruStack t' 0) (elruStack t' c)"
    "zs' \<noteq> [] \<longrightarrow> compareELRU (elruStack t' 0) (elruStack t' (hd zs')) \<le> 0"
    by auto
  show ?thesis using h1 h2 a b by blast
qed

text \<open>
  The claim as stated fails: frame 1, touched at the very time of frame 0's only access,
  has the key of frame 0 and is inserted below it, as the new bottom of the stack.
\<close>

theorem touch_equal_key_not_above:
  "(case StrategyAccessBuffer 4 pool_one 1 False 1000000000 of
      Some (Inr s') \<Rightarrow>
        stackBottom s' = Some 1 \<and> prev (elruStack s' 1) = Some 0 \<and> stackTop s' = Some 0
        \<and> \<not> isRemovedNode (elruStack s' 0)
        \<and> spec_key (elruStack s' 1) = spec_key (elruStack s' 0)
    | _ \<Rightarrow> False)"
  by (simp add: run_defs examples spec_key_def)

subsection \<open>What StrategyGetBuffer ends with\<close>

lemma timestamps_view [simp]:
  "prevs (set_last_accessed s v t) = prevs s"
  "nexts (set_last_accessed s v t) = nexts s"
  "stackTop (set_last_accessed s v t) = stackTop s"
  "stackBottom (set_last_accessed s v t) = stackBottom s"
  "node_id (elruStack (set_last_accessed s v t) i) = node_id (elruStack s i)"
  "prevs (set_second_last_accessed s v t) = prevs s"
  "nexts (set_second_last_accessed s v t) = nexts s"
  "stackTop (set_second_last_accessed s v t) = stackTop s"
  "stackBottom (set_second_last_accessed s v t) = stackBottom s"
  "node_id (elruStack (set_second_last_accessed s v t) i) = node_id (elruStack s i)"
  by (auto simp: prevs_def nexts_def setters fun_eq_iff)















lemma stack_ok_nil_victim [simp]:
  "stack_ok NBuffers (set_second_last_accessed (set_last_accessed s v t) v t') xs
     = stack_ok NBuffers s xs"
  by (simp add: stack_ok_def stack_walk_def)













text \<open>
  The pools of the examples are in good order, also \<open>pool_stale\<close>, whose bottom node
  has a stale \<^verbatim>\<open>next\<close> link and which is not a doubly linked list any more.
\<close>

lemma pool_both_twice_reached:
  "run 4 (pool_two\<lparr>firstFreeBuffer := - 1\<rparr>) [Touch 0 2500000000, Touch 1 2700000000]
     = Some (pool_both_twice\<lparr>BufferDescriptors := BufferDescriptors pool_two\<rparr>, 0)"
  by (simp add: run_defs examples continue_with_def fun_eq_iff)

lemma pool_stale_reached:
  "StrategyGetBuffer 4 pool_both_twice None 3000000000 = Some (Inr (1, False, None, pool_stale))"
  by (simp add: run_defs examples fun_eq_iff)

lemma pool_stale_ok:
  "stack_ok 4 pool_both_twice [0, 1] \<and> elru_list pool_both_twice [0, 1]
   \<and> stack_ok 4 pool_stale [1, 0] \<and> \<not> elru_list pool_stale [1, 0]"
  by (simp add: stack_ok_def elru_list_def stack_walk_def prevs_def nexts_def examples)




text \<open>
  Two more runs that end neither with a buffer nor with the error. With nothing on the
  free list and nothing in the stack the walk ends at once and the function reaches its
  closing brace without a \<^verbatim>\<open>return\<close>; with one unpinned node in the stack, the access
  recorded for the victim dereferences \<^verbatim>\<open>NULL\<close>.
\<close>

lemma StrategyGetBuffer_empty_stack_no_return:
  "StrategyGetBuffer 4 pool_empty None 2000000000 = Some (Inl No_return_value)"
  by (simp add: run_defs examples)

lemma StrategyGetBuffer_sole_victim_null_dereference:
  "StrategyGetBuffer 4 (pool_one\<lparr>firstFreeBuffer := - 1\<rparr>) None 2000000000
     = Some (Inl Null_dereference)"
  by (simp add: run_defs examples)

text \<open>
  Good order is not kept by every call, and a pool that has left it has a stack that is
  not a list any more. In \<open>pool_stale\<close> an access of frame 2, \<open>2^31\<close> nanoseconds after the last access of the bottom node,
  compares as the earlier one and is linked below the bottom node, through that node's stale
  \<^verbatim>\<open>next\<close> link: the \<^verbatim>\<open>prev\<close> links then run in a cycle through the top node, and no
  list is the stack as \<open>StrategyGetBuffer\<close> walks it.
\<close>

lemma stack_walk_top_prev:
  assumes "stack_walk s xs" "stackTop s = Some t"
  shows "prevs s t = None"
proof -
  from assms have "xs \<noteq> []" "last xs = t"
    by (auto simp: stack_walk_def split: if_splits)
  then obtain ys where "xs = ys @ [t]" by (metis append_butlast_last_id)
  with assms(1) show ?thesis by (simp add: stack_walk_def follows_snoc)
qed

lemma StrategyAccessBuffer_closes_cycle:
  "\<exists>s'. StrategyAccessBuffer 4 pool_stale 2 False 5147483648 = Some (Inr s')
     \<and> stackBottom s' = Some 1 \<and> stackTop s' = Some 0
     \<and> prevs s' 1 = Some 0 \<and> prevs s' 0 = Some 2 \<and> prevs s' 2 = Some 1
     \<and> (\<forall>xs. \<not> stack_walk s' xs)"
proof -
  have "\<exists>s'. StrategyAccessBuffer 4 pool_stale 2 False 5147483648 = Some (Inr s')
     \<and> stackBottom s' = Some 1 \<and> stackTop s' = Some 0
     \<and> prevs s' 1 = Some 0 \<and> prevs s' 0 = Some 2 \<and> prevs s' 2 = Some 1"
    by (simp add: run_defs examples prevs_def)
  then obtain s' where s': "StrategyAccessBuffer 4 pool_stale 2 False 5147483648 = Some (Inr s')"
    "stackBottom s' = Some 1" "stackTop s' = Some 0"
    "prevs s' 1 = Some 0" "prevs s' 0 = Some 2" "prevs s' 2 = Some 1"
    by blast
  have "\<not> stack_walk s' xs" for xs
    using stack_walk_top_prev [of s' xs 0] s'(3,5) by auto
  with s' show ?thesis by blast
qed

end
